theory Spec2Isabelle
  imports Main
begin

section \<open>Sharding batches of indices across processes (accelerate/data_loader.py)\<close>

text \<open>
  A shallow embedding of \<^verbatim>\<open>BatchSamplerShard\<close>, \<^verbatim>\<open>DataLoaderShard\<close> and
  \<^verbatim>\<open>prepare_data_loader\<close>. Python integers are
  \<open>int\<close> (\<open>//\<close> and \<open>%\<close> are \<open>div\<close> and \<open>mod\<close>, which round the same way),
  a list of indices is a HOL list, and a generator is the list of the values it yields.
  A raised exception is \<open>Inl\<close>; in this code every exception that can be raised is
  raised before the first \<open>yield\<close>, so the sum type loses no yielded value.
  A loop that might not terminate is a partial function whose \<open>None\<close> is divergence,
  hence the result type \<open>(error + 'a list list) option\<close> of an iteration pass.
\<close>

subsection \<open>Python values\<close>

datatype error = ValueError | ZeroDivisionError | UnboundLocalError | TypeError

text \<open>\<^verbatim>\<open>xs[i:j]\<close>: a negative bound counts from the end, both bounds are clipped.\<close>

definition py_slice :: "'a list \<Rightarrow> int \<Rightarrow> int \<Rightarrow> 'a list" where
  "py_slice xs i j =
     (let n = int (length xs);
          lo = (if i < 0 then max (i + n) 0 else min i n);
          hi = (if j < 0 then max (j + n) 0 else min j n)
      in take (nat (hi - lo)) (drop (nat lo) xs))"

subsection \<open>The upstream batch sampler\<close>

text \<open>
  The upstream \<^verbatim>\<open>BatchSampler\<close> is a PyTorch object. One pass over it yields the
  list \<open>batches\<close>, each batch a fresh list object; \<^verbatim>\<open>len(batch_sampler)\<close> is the
  number of batches of the pass.
\<close>

record 'a BatchSampler =
  batches :: "'a list list"
  batch_size :: int
  drop_last :: bool

definition len_BatchSampler :: "'a BatchSampler \<Rightarrow> int" where
  "len_BatchSampler b = int (length (batches b))"

subsection \<open>BatchSamplerShard\<close>

record 'a BatchSamplerShard =
  batch_sampler :: "'a BatchSampler"
  num_processes :: int
  process_index :: int
  split_batches :: bool
  self_batch_size :: int
  self_drop_last :: bool

text \<open>
  \<^verbatim>\<open>__init__\<close>: \<^verbatim>\<open>split_batches and batch_size % num_processes != 0\<close> evaluates the
  remainder only when \<open>split_batches\<close> holds, and the remainder by zero raises.
\<close>

definition BatchSamplerShard_init ::
  "'a BatchSampler \<Rightarrow> int \<Rightarrow> int \<Rightarrow> bool \<Rightarrow> error + 'a BatchSamplerShard" where
  "BatchSamplerShard_init b np pi split =
     (if split \<and> np = 0 then Inl ZeroDivisionError
      else if split \<and> batch_size b mod np \<noteq> 0 then Inl ValueError
      else Inr \<lparr> batch_sampler = b, num_processes = np, process_index = pi,
                 split_batches = split, self_batch_size = batch_size b,
                 self_drop_last = drop_last b \<rparr>)"

text \<open>\<^verbatim>\<open>__len__\<close>\<close>

definition shard_len :: "'a BatchSamplerShard \<Rightarrow> error + int" where
  "shard_len s =
     (if num_processes s = 0 then Inl ZeroDivisionError
      else if len_BatchSampler (batch_sampler s) mod num_processes s = 0
        then Inr (len_BatchSampler (batch_sampler s) div num_processes s)
      else (let length = len_BatchSampler (batch_sampler s) div num_processes s
            in Inr (if self_drop_last s then length else length + 1)))"

text \<open>
  \<^verbatim>\<open>while len(initial_data) < n: initial_data += initial_data\<close>.
  On an empty list and a positive \<open>n\<close> the loop never ends.
\<close>

partial_function (option) tile_loop :: "int \<Rightarrow> 'a list \<Rightarrow> 'a list option" where
  "tile_loop n initial_data =
     (if int (length initial_data) < n then tile_loop n (initial_data @ initial_data)
      else Some initial_data)"

subsubsection \<open>\<^verbatim>\<open>_iter_with_split\<close>\<close>

text \<open>
  The state of the \<^verbatim>\<open>for\<close> loop: \<open>sp_vars\<close> holds the loop variables
  \<^verbatim>\<open>idx, batch\<close>, unbound (\<open>None\<close>) until the first iteration.
\<close>

record 'a split_state =
  sp_initial_data :: "'a list"
  sp_vars :: "(nat \<times> 'a list) option"
  sp_yielded :: "'a list list"

definition shard_slice :: "int \<Rightarrow> int \<Rightarrow> 'a list \<Rightarrow> 'a list" where
  "shard_slice batch_length pi batch =
     py_slice batch (batch_length * pi) (batch_length * (pi + 1))"

definition split_step ::
  "'a BatchSamplerShard \<Rightarrow> int \<Rightarrow> 'a split_state \<Rightarrow> nat \<times> 'a list \<Rightarrow> 'a split_state" where
  "split_step s batch_length st ib =
     (case ib of (idx, batch) \<Rightarrow>
       \<lparr> sp_initial_data = (if idx = 0 then batch else sp_initial_data st),
         sp_vars = Some (idx, batch),
         sp_yielded =
           (if int (length batch) = self_batch_size s
            then sp_yielded st @ [shard_slice batch_length (process_index s) batch]
            else sp_yielded st) \<rparr>)"

text \<open>
  After the loop \<^verbatim>\<open>initial_data\<close> is the very list object of the first batch, and
  \<^verbatim>\<open>+=\<close> extends it in place. When the pass has a single batch (\<open>idx = 0\<close> at the end)
  \<^verbatim>\<open>batch\<close> is that same object, so it is the tiled list that is concatenated.
\<close>

definition iter_with_split :: "'a BatchSamplerShard \<Rightarrow> (error + 'a list list) option" where
  "iter_with_split s =
     (if num_processes s = 0 then Some (Inl ZeroDivisionError)
      else
        let batch_length = batch_size (batch_sampler s) div num_processes s;
            st = foldl (split_step s batch_length)
                   \<lparr> sp_initial_data = [], sp_vars = None, sp_yielded = [] \<rparr>
                   (enumerate 0 (batches (batch_sampler s)))
        in if \<not> self_drop_last s \<and> sp_initial_data st \<noteq> [] then
             (case sp_vars st of
                None \<Rightarrow> Some (Inl UnboundLocalError)
              | Some (idx, batch) \<Rightarrow>
                  if int (length batch) < self_batch_size s then
                    (case tile_loop (self_batch_size s) (sp_initial_data st) of
                       None \<Rightarrow> None
                     | Some initial_data \<Rightarrow>
                         let batch' = (if idx = 0 then initial_data else batch) @ initial_data
                         in Some (Inr (sp_yielded st
                              @ [shard_slice batch_length (process_index s) batch'])))
                  else Some (Inr (sp_yielded st)))
           else Some (Inr (sp_yielded st)))"

subsubsection \<open>\<^verbatim>\<open>_iter_with_no_split\<close>\<close>

record 'a no_split_state =
  ns_initial_data :: "'a list"
  ns_batch_to_yield :: "'a list"
  ns_vars :: "(nat \<times> 'a list) option"
  ns_yielded :: "'a list list"

definition no_split_step ::
  "'a BatchSamplerShard \<Rightarrow> 'a no_split_state \<Rightarrow> nat \<times> 'a list \<Rightarrow> 'a no_split_state" where
  "no_split_step s st ib =
     (case ib of (idx, batch) \<Rightarrow>
       let initial_data =
             (if \<not> self_drop_last s \<and> int idx < num_processes s
              then ns_initial_data st @ batch else ns_initial_data st);
           batch_to_yield =
             (if int idx mod num_processes s = process_index s
              then batch else ns_batch_to_yield st)
       in if int idx mod num_processes s = num_processes s - 1
             \<and> int (length batch) = self_batch_size s
          then \<lparr> ns_initial_data = initial_data, ns_batch_to_yield = [],
                 ns_vars = Some (idx, batch),
                 ns_yielded = ns_yielded st @ [batch_to_yield] \<rparr>
          else \<lparr> ns_initial_data = initial_data, ns_batch_to_yield = batch_to_yield,
                 ns_vars = Some (idx, batch),
                 ns_yielded = ns_yielded st \<rparr>)"

text \<open>
  The last loop (\<^verbatim>\<open>while idx % self.num_processes != 0 or len(batch) > 0\<close>), with the
  batches yielded so far as accumulator.
\<close>

function wrap_loop ::
  "int \<Rightarrow> int \<Rightarrow> int \<Rightarrow> 'a list \<Rightarrow> nat \<Rightarrow> 'a list \<Rightarrow> int \<Rightarrow> 'a list list
     \<Rightarrow> error + 'a list list" where
  "wrap_loop np pi bsz initial_data idx batch cycle_index out =
     (if np = 0 then Inl ZeroDivisionError
      else if int idx mod np \<noteq> 0 \<or> batch \<noteq> [] then
        (let end_index = cycle_index + bsz - int (length batch);
             batch' = batch @ py_slice initial_data cycle_index end_index
         in wrap_loop np pi bsz initial_data (idx + 1) [] end_index
              (if int idx mod np = pi then out @ [batch'] else out))
      else Inr out)"
  by pat_completeness auto

lemma wrap_measure_step:
  fixes a m :: int
  assumes "0 < m" "a mod m \<noteq> 0"
  shows "(a - 1) mod m = a mod m - 1"
proof -
  have "0 < a mod m" using assms by (simp add: order_less_le)
  moreover have "a mod m < m" using assms by simp
  ultimately have "(a mod m - 1) mod m = a mod m - 1" by simp
  then show ?thesis by (simp add: mod_diff_left_eq)
qed

termination wrap_loop
proof (relation "measure (\<lambda>(np, pi, bsz, initial_data, idx, batch, cycle_index, out).
          (if batch \<noteq> [] then nat \<bar>np\<bar> + 1 else 0) + nat ((- int idx) mod \<bar>np\<bar>))", goal_cases)
  case 1
  show ?case by simp
next
  case (2 np pi bsz initial_data idx batch cycle_index out x xa)
  have pos: "0 < \<bar>np\<bar>" using 2 by simp
  have lt: "(- int (idx + 1)) mod \<bar>np\<bar> < \<bar>np\<bar>" using pos by simp
  show ?case
  proof (cases "batch = []")
    case False
    then show ?thesis using lt by simp
  next
    case True
    with 2 have "int idx mod np \<noteq> 0" by simp
    then have "\<not> np dvd int idx" by (simp add: dvd_eq_mod_eq_0)
    then have "\<not> \<bar>np\<bar> dvd - int idx" by simp
    then have nz: "(- int idx) mod \<bar>np\<bar> \<noteq> 0" by (simp add: dvd_eq_mod_eq_0)
    have step: "(- int idx - 1) mod \<bar>np\<bar> = (- int idx) mod \<bar>np\<bar> - 1"
      by (rule wrap_measure_step [OF pos nz])
    have "- int (idx + 1) = - int idx - 1" by simp
    then have "(- int (idx + 1)) mod \<bar>np\<bar> = (- int idx) mod \<bar>np\<bar> - 1"
      using step by (simp only:)
    moreover have "0 < (- int idx) mod \<bar>np\<bar>"
      using nz pos by (simp add: order_less_le)
    ultimately have "nat ((- int (idx + 1)) mod \<bar>np\<bar>) < nat ((- int idx) mod \<bar>np\<bar>)"
      by linarith
    then show ?thesis using True by (simp del: of_nat_add of_nat_Suc)
  qed
qed

declare wrap_loop.simps [simp del]

definition iter_with_no_split :: "'a BatchSamplerShard \<Rightarrow> (error + 'a list list) option" where
  "iter_with_no_split s =
     (if num_processes s = 0 \<and> batches (batch_sampler s) \<noteq> [] then Some (Inl ZeroDivisionError)
      else
        let st = foldl (no_split_step s)
                   \<lparr> ns_initial_data = [], ns_batch_to_yield = [], ns_vars = None,
                     ns_yielded = [] \<rparr>
                   (enumerate 0 (batches (batch_sampler s)))
        in if \<not> self_drop_last s \<and> ns_initial_data st \<noteq> [] then
             (let out = (if int (length (ns_batch_to_yield st)) = self_batch_size s
                         then ns_yielded st @ [ns_batch_to_yield st] else ns_yielded st)
              in case tile_loop (num_processes s * self_batch_size s) (ns_initial_data st) of
                   None \<Rightarrow> None
                 | Some initial_data \<Rightarrow>
                     (case ns_vars st of
                        None \<Rightarrow> Some (Inl UnboundLocalError)
                      | Some (idx, batch) \<Rightarrow>
                          if int (length batch) = self_batch_size s
                          then Some (wrap_loop (num_processes s) (process_index s)
                                 (self_batch_size s) initial_data (idx + 1) [] 0 out)
                          else Some (wrap_loop (num_processes s) (process_index s)
                                 (self_batch_size s) initial_data idx batch 0 out)))
           else Some (Inr (ns_yielded st)))"

text \<open>\<^verbatim>\<open>__iter__\<close>\<close>

definition shard_iter :: "'a BatchSamplerShard \<Rightarrow> (error + 'a list list) option" where
  "shard_iter s = (if split_batches s then iter_with_split s else iter_with_no_split s)"

subsection \<open>DataLoaderShard and prepare_data_loader\<close>

text \<open>
  A PyTorch \<^verbatim>\<open>DataLoader\<close> is given by what this module reads of it: its dataset and
  collate function (\<open>dl_fetch\<close>, the batch of data for a batch of indices), its
  \<^verbatim>\<open>batch_size\<close>, which is \<^verbatim>\<open>None\<close> for a loader built from a batch sampler, and its
  batch sampler. One pass of a PyTorch loader draws the batches of indices from its batch
  sampler and yields the fetched batch of each. The other keyword arguments, which
  \<^verbatim>\<open>prepare_data_loader\<close> forwards unchanged, are left out.
\<close>

record ('a, 'b) DataLoader =
  dl_fetch :: "'a list \<Rightarrow> 'b"
  dl_batch_size :: "int option"
  dl_batch_sampler :: "'a BatchSampler"

datatype DistributedType = NO | MULTI_GPU | TPU

record AcceleratorState =
  state_num_processes :: int
  state_process_index :: int
  state_distributed_type :: DistributedType

datatype 'a new_batch_sampler = Upstream "'a BatchSampler" | Shard "'a BatchSamplerShard"

record ('a, 'b, 'd) DataLoaderShard =
  dls_fetch :: "'a list \<Rightarrow> 'b"
  dls_device :: "'d option"
  dls_batch_sampler :: "'a new_batch_sampler"

text \<open>
  The sanity check of \<^verbatim>\<open>prepare_data_loader\<close>:
  \<^verbatim>\<open>split_batches and dataloader.batch_size % num_processes != 0\<close>. The remainder is
  evaluated only when \<open>split_batches\<close> holds; on \<^verbatim>\<open>None\<close> it raises \<open>TypeError\<close>, on a
  zero process count \<open>ZeroDivisionError\<close>.
\<close>

definition sanity_check :: "bool \<Rightarrow> int option \<Rightarrow> int \<Rightarrow> error option" where
  "sanity_check split bsz np =
     (if split then
        (case bsz of
           None \<Rightarrow> Some TypeError
         | Some k \<Rightarrow> if np = 0 then Some ZeroDivisionError
                     else if k mod np \<noteq> 0 then Some ValueError else None)
      else None)"

text \<open>
  \<^verbatim>\<open>prepare_data_loader(dataloader, device, num_processes, process_index, split_batches,
  put_on_device)\<close>; the ambient \<^verbatim>\<open>AcceleratorState\<close> supplies the process count and index
  that are not given.
\<close>

definition prepare_data_loader ::
  "AcceleratorState \<Rightarrow> ('a, 'b) DataLoader \<Rightarrow> 'd option \<Rightarrow> int option \<Rightarrow> int option
     \<Rightarrow> bool \<Rightarrow> bool \<Rightarrow> error + ('a, 'b, 'd) DataLoaderShard" where
  "prepare_data_loader state dataloader device num_procs proc_index split put_on_device =
     (let np = (case num_procs of None \<Rightarrow> state_num_processes state | Some n \<Rightarrow> n);
          pi = (case proc_index of None \<Rightarrow> state_process_index state | Some i \<Rightarrow> i)
      in case sanity_check split (dl_batch_size dataloader) np of
           Some e \<Rightarrow> Inl e
         | None \<Rightarrow>
             (case (if np = 1 then Inr (Upstream (dl_batch_sampler dataloader))
                    else (case BatchSamplerShard_init (dl_batch_sampler dataloader) np pi split of
                            Inl e \<Rightarrow> Inl e
                          | Inr s \<Rightarrow> Inr (Shard s))) of
                Inl e \<Rightarrow> Inl e
              | Inr new_batch_sampler \<Rightarrow>
                  Inr \<lparr> dls_fetch = dl_fetch dataloader,
                        dls_device = (if put_on_device then device else None),
                        dls_batch_sampler = new_batch_sampler \<rparr>))"







section \<open>Properties\<close>

subsection \<open>Construction and reported length\<close>

lemma wrap_loop_no_ValueError:
  "wrap_loop np pi bsz initial_data idx batch cycle_index out \<noteq> Inl ValueError"
proof (induction np pi bsz initial_data idx batch cycle_index out rule: wrap_loop.induct)
  case (1 np pi bsz initial_data idx batch cycle_index out)
  show ?case
  proof (cases "np \<noteq> 0 \<and> (int idx mod np \<noteq> 0 \<or> batch \<noteq> [])")
    case True
    then show ?thesis
      using "1.IH" [OF _ _ refl refl] by (subst wrap_loop.simps) (simp add: Let_def)
  next
    case False
    then show ?thesis by (subst wrap_loop.simps) auto
  qed
qed

lemma iter_with_split_no_ValueError: "iter_with_split s \<noteq> Some (Inl ValueError)"
  unfolding iter_with_split_def Let_def
  by (simp split: option.split prod.split)

lemma iter_with_no_split_no_ValueError: "iter_with_no_split s \<noteq> Some (Inl ValueError)"
  unfolding iter_with_no_split_def Let_def
  by (simp add: wrap_loop_no_ValueError split: option.split prod.split)

text \<open>
  C6: for a shard over an upstream sampler of length \<open>L\<close> and a positive process
  count \<open>n\<close>, \<^verbatim>\<open>__len__\<close> returns \<open>L div n\<close> when \<open>n\<close> divides \<open>L\<close>; otherwise it
  returns \<open>L div n\<close> when \<open>drop_last\<close> holds and \<open>L div n + 1\<close> when it does not.
  Here \<open>L div n\<close> is the quotient rounded down: \<open>n * (L div n) \<le> L < n * (L div n + 1)\<close>.
\<close>

theorem shard_len_floor_or_ceil:
  assumes "0 < num_processes s"
  shows "shard_len s =
           Inr (if len_BatchSampler (batch_sampler s) mod num_processes s = 0
                then len_BatchSampler (batch_sampler s) div num_processes s
                else if self_drop_last s
                then len_BatchSampler (batch_sampler s) div num_processes s
                else len_BatchSampler (batch_sampler s) div num_processes s + 1)
         \<and> num_processes s * (len_BatchSampler (batch_sampler s) div num_processes s)
             \<le> len_BatchSampler (batch_sampler s)
         \<and> len_BatchSampler (batch_sampler s)
             < num_processes s * (len_BatchSampler (batch_sampler s) div num_processes s + 1)"
proof -
  let ?L = "len_BatchSampler (batch_sampler s)"
  let ?n = "num_processes s"
  have e: "?n * (?L div ?n) + ?L mod ?n = ?L" by simp
  have a: "0 \<le> ?L mod ?n" and b: "?L mod ?n < ?n" using assms by simp_all
  have c: "?n * (?L div ?n + 1) = ?n * (?L div ?n) + ?n" by (simp add: algebra_simps)
  have "?n * (?L div ?n) \<le> ?L" using e a by linarith
  moreover have "?L < ?n * (?L div ?n + 1)" using e b c by linarith
  ultimately show ?thesis using assms by (simp add: shard_len_def Let_def)
qed

theorem shard_len_floor_or_ceil_witness:
  "shard_len \<lparr> batch_sampler = \<lparr> batches = [[0, 1, 2, 3], [4, 5, 6, 7], [8, 9::nat]],
                                  batch_size = 4, drop_last = False \<rparr>,
               num_processes = 2, process_index = 0, split_batches = False,
               self_batch_size = 4, self_drop_last = False \<rparr> = Inr 2"
  using shard_len_floor_or_ceil [of "\<lparr> batch_sampler = \<lparr> batches = [[0, 1, 2, 3], [4, 5, 6, 7], [8, 9::nat]],
                                  batch_size = 4, drop_last = False \<rparr>,
               num_processes = 2, process_index = 0, split_batches = False,
               self_batch_size = 4, self_drop_last = False \<rparr>"]
  by (simp add: len_BatchSampler_def)

text \<open>
  C8: for a non-zero process count, constructing a shard raises \<open>ValueError\<close> exactly
  when \<open>split_batches\<close> is requested and the batch size is not a multiple of the process
  count; no iteration of any shard raises \<open>ValueError\<close>; and \<^verbatim>\<open>prepare_data_loader\<close>
  raises it on the same condition on the loader's batch size, before it constructs
  the shard (for a loader whose batch size is that of its batch sampler, on no other;
  for a loader without a batch size never).
\<close>

theorem ValueError_only_at_construction:
  assumes "np \<noteq> 0"
  shows "(BatchSamplerShard_init b np pi split = Inl ValueError
            \<longleftrightarrow> split \<and> batch_size b mod np \<noteq> 0)
         \<and> shard_iter s \<noteq> Some (Inl ValueError)
         \<and> (split \<and> dl_batch_size dl = Some k \<and> k mod np \<noteq> 0
              \<longrightarrow> prepare_data_loader state dl device (Some np) (Some pi) split put_on_device
                    = Inl ValueError)
         \<and> (dl_batch_size dl = Some (batch_size (dl_batch_sampler dl))
              \<longrightarrow> (prepare_data_loader state dl device (Some np) (Some pi) split put_on_device
                       = Inl ValueError
                     \<longleftrightarrow> split \<and> batch_size (dl_batch_sampler dl) mod np \<noteq> 0))
         \<and> (dl_batch_size dl = None
              \<longrightarrow> prepare_data_loader state dl device (Some np) (Some pi) split put_on_device
                    \<noteq> Inl ValueError)"
proof (intro conjI)
  show "BatchSamplerShard_init b np pi split = Inl ValueError
          \<longleftrightarrow> split \<and> batch_size b mod np \<noteq> 0"
    using assms by (simp add: BatchSamplerShard_init_def)
  show "shard_iter s \<noteq> Some (Inl ValueError)"
    by (simp add: shard_iter_def iter_with_split_no_ValueError iter_with_no_split_no_ValueError)
  show "split \<and> dl_batch_size dl = Some k \<and> k mod np \<noteq> 0
      \<longrightarrow> prepare_data_loader state dl device (Some np) (Some pi) split put_on_device
            = Inl ValueError"
    using assms by (simp add: prepare_data_loader_def sanity_check_def)
  show "dl_batch_size dl = Some (batch_size (dl_batch_sampler dl))
      \<longrightarrow> (prepare_data_loader state dl device (Some np) (Some pi) split put_on_device
               = Inl ValueError
             \<longleftrightarrow> split \<and> batch_size (dl_batch_sampler dl) mod np \<noteq> 0)"
  proof (cases split)
    case True
    then show ?thesis using assms
      by (simp add: prepare_data_loader_def sanity_check_def BatchSamplerShard_init_def)
  next
    case False
    then show ?thesis using assms
      by (simp add: prepare_data_loader_def sanity_check_def BatchSamplerShard_init_def)
  qed
  show "dl_batch_size dl = None
      \<longrightarrow> prepare_data_loader state dl device (Some np) (Some pi) split put_on_device
            \<noteq> Inl ValueError"
  proof (cases split)
    case True
    then show ?thesis
      by (simp add: prepare_data_loader_def sanity_check_def)
  next
    case False
    then show ?thesis
      by (simp add: prepare_data_loader_def sanity_check_def BatchSamplerShard_init_def)
  qed
qed

theorem ValueError_only_at_construction_witness:
  "BatchSamplerShard_init \<lparr> batches = [[0, 1, 2::int]], batch_size = 3, drop_last = False \<rparr>
      2 0 True = Inl ValueError
   \<and> prepare_data_loader
       \<lparr> state_num_processes = 1, state_process_index = 0, state_distributed_type = NO \<rparr>
       \<lparr> dl_fetch = (\<lambda>batch. batch), dl_batch_size = Some 3,
         dl_batch_sampler = \<lparr> batches = [[0, 1, 2::int]], batch_size = 3, drop_last = False \<rparr> \<rparr>
       (None :: unit option) (Some 2) (Some 0) True False = Inl ValueError"
proof -
  let ?b = "\<lparr> batches = [[0, 1, 2::int]], batch_size = 3, drop_last = False \<rparr>"
  let ?dl = "\<lparr> dl_fetch = (\<lambda>batch :: int list. batch), dl_batch_size = Some 3,
               dl_batch_sampler = ?b \<rparr>"
  let ?st = "\<lparr> state_num_processes = 1, state_process_index = 0,
               state_distributed_type = NO \<rparr>"
  let ?s = "\<lparr> batch_sampler = ?b, num_processes = 2, process_index = 0, split_batches = False,
              self_batch_size = 3, self_drop_last = False \<rparr>"
  have h: "(2::int) \<noteq> 0" by simp
  note t = ValueError_only_at_construction [OF h, of ?b 0 True ?s ?dl 3 ?st
      "None :: unit option" False]
  from conjunct1 [OF t]
  have a: "BatchSamplerShard_init ?b 2 0 True = Inl ValueError" by simp
  from conjunct1 [OF conjunct2 [OF conjunct2 [OF t]]]
  have b: "prepare_data_loader ?st ?dl (None :: unit option) (Some 2) (Some 0) True False
      = Inl ValueError" by simp
  from a b show ?thesis by simp
qed

subsection \<open>A single process\<close>





subsection \<open>An empty pass\<close>

text \<open>
  C10: whatever the process count, process index, mode and \<open>drop_last\<close>, a shard
  that was constructed over an upstream pass of zero batches terminates, raises
  nothing (in particular it reads no unbound loop variable) and yields nothing.
\<close>

theorem empty_pass_yields_nothing:
  assumes "BatchSamplerShard_init b np pi split = Inr s"
    and "batches b = []"
  shows "shard_iter s = Some (Inr [])"
proof -
  have s: "s = \<lparr> batch_sampler = b, num_processes = np, process_index = pi,
                 split_batches = split, self_batch_size = batch_size b,
                 self_drop_last = drop_last b \<rparr>" and np: "split \<Longrightarrow> np \<noteq> 0"
    using assms(1) by (auto simp: BatchSamplerShard_init_def split: if_splits)
  show ?thesis
  proof (cases split)
    case True
    then show ?thesis using np assms(2)
      by (simp add: s shard_iter_def iter_with_split_def enumerate_eq_zip)
  next
    case False
    then show ?thesis using assms(2)
      by (simp add: s shard_iter_def iter_with_no_split_def enumerate_eq_zip)
  qed
qed

theorem empty_pass_yields_nothing_witness:
  "shard_iter \<lparr> batch_sampler = \<lparr> batches = ([] :: nat list list), batch_size = 4,
                                   drop_last = False \<rparr>,
                num_processes = 2, process_index = 1, split_batches = True,
                self_batch_size = 4, self_drop_last = False \<rparr> = Some (Inr [])"
  by (rule empty_pass_yields_nothing
        [of "\<lparr> batches = ([] :: nat list list), batch_size = 4, drop_last = False \<rparr>" 2 1 True])
     (simp_all add: BatchSamplerShard_init_def)

subsection \<open>Splitting each batch\<close>

lemma py_slice_nonneg:
  "0 \<le> i \<Longrightarrow> 0 \<le> j \<Longrightarrow> py_slice xs i j = take (nat (j - i)) (drop (nat i) xs)"
proof -
  assume i: "0 \<le> i" and j: "0 \<le> j"
  show ?thesis
  proof (cases "i \<le> int (length xs)")
    case True
    have "take (nat (min j (int (length xs)) - i)) (drop (nat i) xs)
            = take (nat (j - i)) (drop (nat i) xs)"
    proof (cases "j \<le> int (length xs)")
      case True
      then show ?thesis by (simp add: min_def)
    next
      case False
      with True i have "length (drop (nat i) xs) \<le> nat (j - i)"
        and "length (drop (nat i) xs) \<le> nat (int (length xs) - i)" by auto
      with False show ?thesis by (simp add: min_def)
    qed
    with True i j show ?thesis by (simp add: py_slice_def Let_def min_def)
  next
    case False
    with i j show ?thesis by (simp add: py_slice_def Let_def min_def)
  qed
qed

lemma tile_loop_total:
  assumes "xs \<noteq> []" and "b @ xs = xs @ b"
  shows "\<exists>t. tile_loop n xs = Some t \<and> n \<le> int (length t) \<and> b @ t = t @ b
            \<and> length xs \<le> length t \<and> (n \<le> int (length xs) \<longrightarrow> t = xs)"
  using assms
proof (induction "nat (n - int (length xs))" arbitrary: xs rule: less_induct)
  case less
  show ?case
  proof (cases "int (length xs) < n")
    case False
    then show ?thesis using less.prems by (subst tile_loop.simps) simp
  next
    case True
    have pos: "0 < length xs" using less.prems by simp
    have "nat (n - int (length (xs @ xs))) < nat (n - int (length xs))"
      using True pos by simp
    moreover have "xs @ xs \<noteq> []" using less.prems by simp
    moreover have "b @ (xs @ xs) = (xs @ xs) @ b"
      using less.prems(2) by (metis append.assoc)
    ultimately obtain t where t: "tile_loop n (xs @ xs) = Some t" "n \<le> int (length t)"
      "b @ t = t @ b" "length (xs @ xs) \<le> length t"
      using less.hyps by blast
    have "tile_loop n xs = Some t" using True t(1) by (subst tile_loop.simps) simp
    then show ?thesis using t True by auto
  qed
qed

lemma split_step_pair:
  "split_step s bl st (idx, batch) =
     \<lparr> sp_initial_data = (if idx = 0 then batch else sp_initial_data st),
       sp_vars = Some (idx, batch),
       sp_yielded =
         (if int (length batch) = self_batch_size s
          then sp_yielded st @ [shard_slice bl (process_index s) batch]
          else sp_yielded st) \<rparr>"
  by (simp add: split_step_def)

lemma split_loop_state:
  "foldl (split_step s bl) \<lparr> sp_initial_data = [], sp_vars = None, sp_yielded = [] \<rparr>
       (enumerate 0 xs) =
     \<lparr> sp_initial_data = (if xs = [] then [] else hd xs),
       sp_vars = (if xs = [] then None else Some (length xs - 1, last xs)),
       sp_yielded = map (shard_slice bl (process_index s))
                      (filter (\<lambda>batch. int (length batch) = self_batch_size s) xs) \<rparr>"
proof (induction xs rule: rev_induct)
  case Nil
  show ?case by simp
next
  case (snoc x xs)
  have step: "foldl (split_step s bl) \<lparr> sp_initial_data = [], sp_vars = None, sp_yielded = [] \<rparr>
          (enumerate 0 (xs @ [x]))
        = split_step s bl
            \<lparr> sp_initial_data = (if xs = [] then [] else hd xs),
              sp_vars = (if xs = [] then None else Some (length xs - 1, last xs)),
              sp_yielded = map (shard_slice bl (process_index s))
                      (filter (\<lambda>batch. int (length batch) = self_batch_size s) xs) \<rparr>
            (length xs, x)"
    using snoc.IH by (simp add: enumerate_append_eq)
  show ?case
    by (cases "xs = []") (simp_all add: step split_step_pair)
qed


lemma shard_slice_nat:
  assumes "0 \<le> bl" "0 \<le> pi"
  shows "shard_slice bl pi batch = take (nat bl) (drop (nat pi * nat bl) batch)"
proof -
  have "0 \<le> bl * pi" "0 \<le> bl * (pi + 1)" using assms by simp_all
  then have "shard_slice bl pi batch
      = take (nat (bl * (pi + 1) - bl * pi)) (drop (nat (bl * pi)) batch)"
    unfolding shard_slice_def by (rule py_slice_nonneg)
  moreover have "bl * (pi + 1) - bl * pi = bl" by (simp add: algebra_simps)
  moreover have "nat (bl * pi) = nat pi * nat bl"
    using assms by (simp add: nat_mult_distrib mult.commute)
  ultimately show ?thesis by simp
qed

lemma shard_slice_append:
  assumes "0 \<le> bl" "0 \<le> pi" "bl * (pi + 1) \<le> int (length xs)"
  shows "shard_slice bl pi (xs @ ys) = shard_slice bl pi xs"
proof -
  have "int (nat pi * nat bl + nat bl) = bl * (pi + 1)"
    using assms(1,2) by (simp add: algebra_simps)
  with assms(3) have "nat pi * nat bl + nat bl \<le> length xs" by linarith
  then show ?thesis
    using assms(1,2) by (simp add: shard_slice_nat)
qed

lemma shard_slice_length:
  assumes "0 \<le> bl" "0 \<le> pi" "bl * (pi + 1) \<le> int (length xs)"
  shows "length (shard_slice bl pi xs) = nat bl"
proof -
  have "int (nat pi * nat bl + nat bl) = bl * (pi + 1)"
    using assms(1,2) by (simp add: algebra_simps)
  with assms(3) have "nat pi * nat bl + nat bl \<le> length xs" by linarith
  then show ?thesis
    using assms(1,2) by (simp add: shard_slice_nat)
qed

lemma concat_slices:
  "concat (map (\<lambda>i. take k (drop (i * k) xs)) [0..<n]) = take (n * k) xs"
proof (induction n)
  case 0
  show ?case by simp
next
  case (Suc n)
  have "take (n * k) xs @ take k (drop (n * k) xs) = take (n * k + k) xs"
    by (simp add: take_add)
  with Suc show ?case by (simp add: add.commute)
qed

lemma init_split_fields:
  assumes "BatchSamplerShard_init b np pi True = Inr s"
  shows "np \<noteq> 0" and "batch_size b mod np = 0"
    and "batch_sampler s = b" and "num_processes s = np" and "process_index s = pi"
    and "self_batch_size s = batch_size b" and "self_drop_last s = drop_last b"
    and "split_batches s"
  using assms by (auto simp: BatchSamplerShard_init_def split: if_splits)

lemma iter_with_split_unfold:
  assumes "num_processes s \<noteq> 0"
  shows "iter_with_split s =
     (if \<not> self_drop_last s \<and> batches (batch_sampler s) \<noteq> []
         \<and> hd (batches (batch_sampler s)) \<noteq> []
         \<and> int (length (last (batches (batch_sampler s)))) < self_batch_size s
      then (case tile_loop (self_batch_size s) (hd (batches (batch_sampler s))) of
              None \<Rightarrow> None
            | Some t \<Rightarrow>
                Some (Inr (map (shard_slice (batch_size (batch_sampler s) div num_processes s)
                                 (process_index s))
                    (filter (\<lambda>batch. int (length batch) = self_batch_size s)
                       (batches (batch_sampler s)))
                  @ [shard_slice (batch_size (batch_sampler s) div num_processes s)
                       (process_index s)
                       ((if length (batches (batch_sampler s)) - 1 = 0 then t
                         else last (batches (batch_sampler s))) @ t)])))
      else Some (Inr (map (shard_slice (batch_size (batch_sampler s) div num_processes s)
                            (process_index s))
                    (filter (\<lambda>batch. int (length batch) = self_batch_size s)
                       (batches (batch_sampler s))))))"
  using assms by (simp add: iter_with_split_def Let_def split_loop_state split: option.split)

lemma slice_bound:
  fixes bsz np pi :: int
  assumes "bsz mod np = 0" "0 \<le> pi" "pi < np" "0 \<le> bsz"
  shows "0 \<le> bsz div np" and "bsz div np * (pi + 1) \<le> bsz"
proof -
  have np: "0 < np" using assms by simp
  show bl: "0 \<le> bsz div np" using assms(4) np by (simp add: pos_imp_zdiv_nonneg_iff)
  have "bsz div np * np = bsz" using assms(1) by (simp add: mod_0_imp_dvd)
  moreover have "bsz div np * (pi + 1) \<le> bsz div np * np"
    using bl assms(3) by (intro mult_left_mono) simp_all
  ultimately show "bsz div np * (pi + 1) \<le> bsz" by simp
qed

lemma iter_with_split_no_wrap:
  assumes init: "BatchSamplerShard_init b np pi True = Inr s"
    and nowrap: "drop_last b \<or> batches b = [] \<or> hd (batches b) = []
        \<or> \<not> int (length (last (batches b))) < batch_size b"
  shows "iter_with_split s =
           Some (Inr (map (shard_slice (batch_size b div np) pi)
             (filter (\<lambda>batch. int (length batch) = batch_size b) (batches b))))"
proof -
  note f = init_split_fields [OF init]
  have "num_processes s \<noteq> 0" using f by simp
  then show ?thesis
    using nowrap by (subst iter_with_split_unfold) (auto simp: f)
qed

lemma iter_with_split_wrap:
  assumes init: "BatchSamplerShard_init b np pi True = Inr s"
    and pi: "0 \<le> pi" "pi < np"
    and wrap: "\<not> drop_last b" "batches b \<noteq> []" "hd (batches b) \<noteq> []"
      "int (length (last (batches b))) < batch_size b"
  shows "\<exists>tiled. tile_loop (batch_size b) (hd (batches b)) = Some tiled
           \<and> batch_size b \<le> int (length tiled)
           \<and> iter_with_split s =
               Some (Inr (map (shard_slice (batch_size b div np) pi)
                 (filter (\<lambda>batch. int (length batch) = batch_size b) (batches b))
                 @ [shard_slice (batch_size b div np) pi (last (batches b) @ tiled)]))"
proof -
  let ?bl = "batch_size b div np"
  obtain t where t: "tile_loop (batch_size b) (hd (batches b)) = Some t"
    "batch_size b \<le> int (length t)" "hd (batches b) @ t = t @ hd (batches b)"
    using tile_loop_total [OF wrap(3), of "hd (batches b)" "batch_size b"] by auto
  have bsz: "0 \<le> batch_size b" using wrap(4) by linarith
  note bnd = slice_bound [OF init_split_fields(2) [OF init] pi bsz]
  have le: "?bl * (pi + 1) \<le> int (length t)" using bnd(2) t(2) by linarith
  have single: "shard_slice ?bl pi (t @ t) = shard_slice ?bl pi (hd (batches b) @ t)"
  proof -
    have "shard_slice ?bl pi (t @ t) = shard_slice ?bl pi t"
      by (rule shard_slice_append [OF bnd(1) pi(1) le])
    also have "\<dots> = shard_slice ?bl pi (t @ hd (batches b))"
      by (rule shard_slice_append [OF bnd(1) pi(1) le, symmetric])
    finally show ?thesis by (simp only: t(3))
  qed
  have one: "length (batches b) - 1 = 0 \<Longrightarrow> last (batches b) = hd (batches b)"
    using wrap(2) by (cases "batches b") auto
  have "iter_with_split s =
      Some (Inr (map (shard_slice ?bl pi)
         (filter (\<lambda>batch. int (length batch) = batch_size b) (batches b))
         @ [shard_slice ?bl pi (last (batches b) @ t)]))"
  proof -
    note f = init_split_fields [OF init]
    have "num_processes s \<noteq> 0" using f by simp
    then show ?thesis
      using wrap t(1) single one by (subst iter_with_split_unfold) (auto simp: f)
  qed
  with t show ?thesis by blast
qed

text \<open>
  C3: in \<open>split_batches\<close> mode with a batch size divisible by the process count, the
  process \<open>pi\<close> yields, for every full upstream batch in order, the slice
  \<open>shard_slice (batch_size div np) pi\<close> of it (followed by at most one more slice for a
  short final batch). For a full batch that slice is the contiguous range of
  \<open>batch_size div np\<close> elements starting at \<open>pi * (batch_size div np)\<close>, and the slices
  of the processes \<open>0, \<dots>, np - 1\<close>, concatenated in this order, are the batch.
\<close>

theorem split_slices_partition_batch:
  assumes init: "BatchSamplerShard_init b np pi True = Inr s"
    and pi: "0 \<le> pi" "pi < np"
  shows "(\<exists>tail. shard_iter s =
             Some (Inr (map (shard_slice (batch_size b div np) pi)
               (filter (\<lambda>batch. int (length batch) = batch_size b) (batches b)) @ tail))
           \<and> length tail \<le> 1)
       \<and> (\<forall>batch \<in> set (batches b). int (length batch) = batch_size b \<longrightarrow>
            shard_slice (batch_size b div np) pi batch
              = take (nat (batch_size b div np)) (drop (nat pi * nat (batch_size b div np)) batch)
            \<and> length (shard_slice (batch_size b div np) pi batch) = nat (batch_size b div np)
            \<and> nat np * nat (batch_size b div np) = length batch
            \<and> concat (map (\<lambda>i. shard_slice (batch_size b div np) (int i) batch) [0..<nat np])
                = batch)"
proof -
  note f = init_split_fields [OF init]
  let ?bl = "batch_size b div np"
  have iter: "shard_iter s = iter_with_split s" using f by (simp add: shard_iter_def)
  have part1: "\<exists>tail. shard_iter s =
             Some (Inr (map (shard_slice ?bl pi)
               (filter (\<lambda>batch. int (length batch) = batch_size b) (batches b)) @ tail))
           \<and> length tail \<le> 1"
  proof (cases "\<not> drop_last b \<and> batches b \<noteq> [] \<and> hd (batches b) \<noteq> []
        \<and> int (length (last (batches b))) < batch_size b")
    case True
    then show ?thesis
      using iter_with_split_wrap [OF init pi] iter by fastforce
  next
    case False
    then have "iter_with_split s =
           Some (Inr (map (shard_slice ?bl pi)
             (filter (\<lambda>batch. int (length batch) = batch_size b) (batches b))))"
      by (intro iter_with_split_no_wrap [OF init]) blast
    then show ?thesis using iter by simp
  qed
  have part2: "shard_slice ?bl pi batch = take (nat ?bl) (drop (nat pi * nat ?bl) batch)
            \<and> length (shard_slice ?bl pi batch) = nat ?bl
            \<and> nat np * nat ?bl = length batch
            \<and> concat (map (\<lambda>i. shard_slice ?bl (int i) batch) [0..<nat np]) = batch"
    if full: "int (length batch) = batch_size b" for batch :: "'a list"
  proof -
    have bsz: "0 \<le> batch_size b" using full by linarith
    note bnd = slice_bound [OF f(2) pi bsz]
    have le: "?bl * (pi + 1) \<le> int (length batch)" using bnd(2) full by simp
    have a: "shard_slice ?bl pi batch = take (nat ?bl) (drop (nat pi * nat ?bl) batch)"
      by (rule shard_slice_nat [OF bnd(1) pi(1)])
    have l: "length (shard_slice ?bl pi batch) = nat ?bl"
      by (rule shard_slice_length [OF bnd(1) pi(1) le])
    have "?bl * np = batch_size b" using f(2) by (simp add: mod_0_imp_dvd)
    then have "int (nat np * nat ?bl) = int (length batch)"
      using bnd(1) pi full by (simp add: mult.commute)
    then have len: "nat np * nat ?bl = length batch" by linarith
    have "concat (map (\<lambda>i. shard_slice ?bl (int i) batch) [0..<nat np])
        = concat (map (\<lambda>i. take (nat ?bl) (drop (i * nat ?bl) batch)) [0..<nat np])"
      using bnd(1) by (simp add: shard_slice_nat)
    also have "\<dots> = take (nat np * nat ?bl) batch" by (rule concat_slices)
    finally have "concat (map (\<lambda>i. shard_slice ?bl (int i) batch) [0..<nat np]) = batch"
      using len by simp
    with a l len show ?thesis by blast
  qed
  from part1 part2 show ?thesis by blast
qed

theorem split_slices_partition_batch_witness:
  "(\<exists>tail. shard_iter \<lparr> batch_sampler = \<lparr> batches = [[0, 1, 2, 3], [4, 5, 6, 7::int]],
                                           batch_size = 4, drop_last = False \<rparr>,
                        num_processes = 2, process_index = 1, split_batches = True,
                        self_batch_size = 4, self_drop_last = False \<rparr>
             = Some (Inr ([[2, 3], [6, 7]] @ tail)) \<and> length tail \<le> 1)
   \<and> concat (map (\<lambda>i. shard_slice 2 (int i) [0, 1, 2, 3::int]) [0..<2]) = [0, 1, 2, 3]"
proof -
  let ?b = "\<lparr> batches = [[0, 1, 2, 3], [4, 5, 6, 7::int]], batch_size = 4, drop_last = False \<rparr>"
  let ?s = "\<lparr> batch_sampler = ?b, num_processes = 2, process_index = 1, split_batches = True,
              self_batch_size = 4, self_drop_last = False \<rparr>"
  have i: "BatchSamplerShard_init ?b 2 1 True = Inr ?s"
    by (simp add: BatchSamplerShard_init_def)
  have sl: "shard_slice 2 1 [0, 1, 2, 3::int] = [2, 3]" "shard_slice 2 1 [4, 5, 6, 7::int] = [6, 7]"
    by (simp_all add: shard_slice_def py_slice_def)
  have z: "(0::int) \<le> 1" and l: "(1::int) < 2" by simp_all
  note t = split_slices_partition_batch [OF i z l]
  from conjunct1 [OF t]
  have "\<exists>tail. shard_iter ?s = Some (Inr ([[2, 3], [6, 7]] @ tail)) \<and> length tail \<le> 1"
    by (simp add: sl)
  moreover from bspec [OF conjunct2 [OF t], of "[0, 1, 2, 3]"]
  have "concat (map (\<lambda>i. shard_slice 2 (int i) [0, 1, 2, 3::int]) [0..<2]) = [0, 1, 2, 3]"
    by simp
  ultimately show ?thesis by blast
qed

text \<open>
  C4: in \<open>split_batches\<close> mode, for a pass whose final batch is short (and whose first
  batch is not empty): when \<open>drop_last\<close> holds, only the slices of the full batches are
  yielded, so the short batch yields nothing; when it does not hold, the first batch
  is tiled by \<open>tile_loop\<close> (doubled until it has at least \<open>batch_size\<close> elements, which
  terminates), appended to the short final batch, and the process yields, after the
  slices of the full batches, one last slice of that list, of exactly
  \<open>batch_size div np\<close> elements.
\<close>

theorem split_short_final_batch:
  assumes init: "BatchSamplerShard_init b np pi True = Inr s"
    and pi: "0 \<le> pi" "pi < np"
    and short: "batches b \<noteq> []" "hd (batches b) \<noteq> []"
      "int (length (last (batches b))) < batch_size b"
  shows "(drop_last b \<longrightarrow>
            shard_iter s = Some (Inr (map (shard_slice (batch_size b div np) pi)
               (filter (\<lambda>batch. int (length batch) = batch_size b) (batches b)))))
       \<and> (\<not> drop_last b \<longrightarrow>
            (\<exists>tiled. tile_loop (batch_size b) (hd (batches b)) = Some tiled
               \<and> batch_size b \<le> int (length tiled)
               \<and> shard_iter s = Some (Inr (map (shard_slice (batch_size b div np) pi)
                     (filter (\<lambda>batch. int (length batch) = batch_size b) (batches b))
                   @ [shard_slice (batch_size b div np) pi (last (batches b) @ tiled)]))
               \<and> length (shard_slice (batch_size b div np) pi (last (batches b) @ tiled))
                   = nat (batch_size b div np)))"
proof (intro conjI impI)
  note f = init_split_fields [OF init]
  have iter: "shard_iter s = iter_with_split s" using f by (simp add: shard_iter_def)
  {
    assume "drop_last b"
    then show "shard_iter s = Some (Inr (map (shard_slice (batch_size b div np) pi)
               (filter (\<lambda>batch. int (length batch) = batch_size b) (batches b))))"
      using iter_with_split_no_wrap [OF init] iter by simp
  next
    assume nd: "\<not> drop_last b"
    obtain t where t: "tile_loop (batch_size b) (hd (batches b)) = Some t"
      "batch_size b \<le> int (length t)"
      "iter_with_split s = Some (Inr (map (shard_slice (batch_size b div np) pi)
                 (filter (\<lambda>batch. int (length batch) = batch_size b) (batches b))
                 @ [shard_slice (batch_size b div np) pi (last (batches b) @ t)]))"
      using iter_with_split_wrap [OF init pi nd short] by blast
    have bsz: "0 \<le> batch_size b" using short(3) by linarith
    note bnd = slice_bound [OF f(2) pi bsz]
    have "batch_size b div np * (pi + 1) \<le> int (length (last (batches b) @ t))"
      using bnd(2) t(2) by simp
    then have "length (shard_slice (batch_size b div np) pi (last (batches b) @ t))
        = nat (batch_size b div np)"
      by (rule shard_slice_length [OF bnd(1) pi(1)])
    with t iter show "\<exists>tiled. tile_loop (batch_size b) (hd (batches b)) = Some tiled
               \<and> batch_size b \<le> int (length tiled)
               \<and> shard_iter s = Some (Inr (map (shard_slice (batch_size b div np) pi)
                     (filter (\<lambda>batch. int (length batch) = batch_size b) (batches b))
                   @ [shard_slice (batch_size b div np) pi (last (batches b) @ tiled)]))
               \<and> length (shard_slice (batch_size b div np) pi (last (batches b) @ tiled))
                   = nat (batch_size b div np)"
      by auto
  }
qed

theorem split_short_final_batch_witness:
  "shard_iter \<lparr> batch_sampler = \<lparr> batches = [[0, 1, 2, 3], [4, 5::int]],
                                   batch_size = 4, drop_last = False \<rparr>,
                num_processes = 2, process_index = 1, split_batches = True,
                self_batch_size = 4, self_drop_last = False \<rparr>
     = Some (Inr [[2, 3], [0, 1]])"
proof -
  let ?b = "\<lparr> batches = [[0, 1, 2, 3], [4, 5::int]], batch_size = 4, drop_last = False \<rparr>"
  let ?s = "\<lparr> batch_sampler = ?b, num_processes = 2, process_index = 1, split_batches = True,
              self_batch_size = 4, self_drop_last = False \<rparr>"
  have i: "BatchSamplerShard_init ?b 2 1 True = Inr ?s"
    by (simp add: BatchSamplerShard_init_def)
  have tl: "tile_loop 4 [0, 1, 2, 3::int] = Some [0, 1, 2, 3]"
    by (subst tile_loop.simps) simp
  have sl: "shard_slice 2 1 [0, 1, 2, 3::int] = [2, 3]"
    "shard_slice 2 1 [4, 5, 0, 1, 2, 3::int] = [0, 1]"
    by (simp_all add: shard_slice_def py_slice_def)
  from split_short_final_batch [OF i] show ?thesis
    by (simp add: tl sl)
qed


subsection \<open>Whole batches, round-robin\<close>

lemma int_mod_eq_iff: "int i mod int n = int p \<longleftrightarrow> i mod n = p"
  by (simp only: of_nat_mod [symmetric] of_nat_eq_iff)

lemma int_mod_eq_0_iff: "int i mod int n = 0 \<longleftrightarrow> i mod n = 0"
  by (simp only: of_nat_mod [symmetric] of_nat_eq_0_iff)

lemma int_mod_eq_pred_iff:
  assumes "0 < n"
  shows "int i mod int n = int n - 1 \<longleftrightarrow> i mod n = n - 1"
proof -
  have "int n - 1 = int (n - 1)" using assms by (simp add: of_nat_diff)
  then show ?thesis by (simp only: int_mod_eq_iff)
qed

lemma no_split_step_pair:
  assumes "num_processes s = int n" "process_index s = int p" "0 < n"
  shows "no_split_step s st (idx, batch) =
     (if idx mod n = n - 1 \<and> int (length batch) = self_batch_size s
      then \<lparr> ns_initial_data =
               (if \<not> self_drop_last s \<and> idx < n
                then ns_initial_data st @ batch else ns_initial_data st),
             ns_batch_to_yield = [],
             ns_vars = Some (idx, batch),
             ns_yielded = ns_yielded st
               @ [if idx mod n = p then batch else ns_batch_to_yield st] \<rparr>
      else \<lparr> ns_initial_data =
               (if \<not> self_drop_last s \<and> idx < n
                then ns_initial_data st @ batch else ns_initial_data st),
             ns_batch_to_yield = (if idx mod n = p then batch else ns_batch_to_yield st),
             ns_vars = Some (idx, batch),
             ns_yielded = ns_yielded st \<rparr>)"
  unfolding no_split_step_def assms(1,2)
  by (simp add: Let_def int_mod_eq_iff int_mod_eq_pred_iff [OF assms(3)])

lemma group_index_bound:
  fixes n p m g :: nat
  assumes "p < n" "g < m div n"
  shows "g * n + p < m"
proof -
  have "g * n + p < g * n + n" using assms(1) by simp
  also have "\<dots> = Suc g * n" by simp
  also have "\<dots> \<le> (m div n) * n" using assms(2) by (intro mult_le_mono1) simp
  also have "\<dots> \<le> m" by simp
  finally show ?thesis .
qed

lemma held_index_bound:
  fixes n p m :: nat
  assumes "p < m mod n"
  shows "m div n * n + p < m"
proof -
  have "m div n * n + m mod n = m" by simp
  with assms show ?thesis by linarith
qed

lemma wrap_loop_empty:
  assumes n: "0 < n" and p: "p < n" and c: "0 \<le> c" and bsz: "0 \<le> bsz"
  shows "wrap_loop (int n) (int p) bsz buf idx [] c out =
           Inr (if idx mod n \<noteq> 0 \<and> idx mod n \<le> p
                then out @ [take (nat bsz) (drop (nat c + (p - idx mod n) * nat bsz) buf)]
                else out)"
  using c
proof (induction "(n - idx mod n) mod n" arbitrary: idx c out rule: less_induct)
  case less
  note m = int_mod_eq_iff int_mod_eq_0_iff
  show ?case
  proof (cases "idx mod n = 0")
    case True
    then show ?thesis using n by (subst wrap_loop.simps) (simp add: m)
  next
    case False
    have lt: "idx mod n < n" using n by simp
    have suc: "Suc idx mod n = (if Suc (idx mod n) = n then 0 else Suc (idx mod n))"
      by (rule mod_Suc)
    have dec: "(n - Suc idx mod n) mod n < (n - idx mod n) mod n"
      using False lt by (auto simp: suc)
    have c': "0 \<le> c + bsz" using less.prems bsz by simp
    have sl: "py_slice buf c (c + bsz) = take (nat bsz) (drop (nat c) buf)"
      using py_slice_nonneg [OF less.prems c', of buf] by simp
    have natc: "nat (c + bsz) = nat c + nat bsz" using less.prems bsz by (simp add: nat_add_distrib)
    have step: "wrap_loop (int n) (int p) bsz buf idx [] c out =
        wrap_loop (int n) (int p) bsz buf (Suc idx) [] (c + bsz)
          (if idx mod n = p then out @ [take (nat bsz) (drop (nat c) buf)] else out)"
      using False n by (subst wrap_loop.simps) (simp add: m Let_def sl)
    have ih: "wrap_loop (int n) (int p) bsz buf (Suc idx) [] (c + bsz) out' =
           Inr (if Suc idx mod n \<noteq> 0 \<and> Suc idx mod n \<le> p
                then out' @ [take (nat bsz)
                   (drop (nat (c + bsz) + (p - Suc idx mod n) * nat bsz) buf)]
                else out')" for out'
      by (rule less.hyps [OF dec c'])
    show ?thesis
    proof (cases "idx mod n \<le> p")
      case False
      then show ?thesis using \<open>idx mod n \<noteq> 0\<close> lt
        unfolding step ih by (auto simp: suc)
    next
      case True
      show ?thesis
      proof (cases "idx mod n = p")
        case True
        then show ?thesis using \<open>idx mod n \<noteq> 0\<close> lt
          unfolding step ih by (auto simp: suc)
      next
        case False
        with True have less_p: "idx mod n < p" by simp
        then have e: "nat (c + bsz) + (p - Suc (idx mod n)) * nat bsz
            = nat c + (p - idx mod n) * nat bsz"
          unfolding natc
          by (metis Suc_diff_Suc add.assoc add.commute mult_Suc)
        have ne: "Suc (idx mod n) \<noteq> n" using less_p p by simp
        show ?thesis using \<open>idx mod n \<noteq> 0\<close> less_p False ne
          unfolding step ih suc by (simp add: e)
      qed
    qed
  qed
qed

lemma no_split_loop_full:
  assumes np: "num_processes s = int n" "process_index s = int p" and n: "0 < n" and p: "p < n"
    and full: "\<forall>x \<in> set xs. int (length x) = self_batch_size s"
  shows "foldl (no_split_step s)
           \<lparr> ns_initial_data = [], ns_batch_to_yield = [], ns_vars = None, ns_yielded = [] \<rparr>
           (enumerate 0 xs) =
         \<lparr> ns_initial_data = (if self_drop_last s then [] else concat (take n xs)),
           ns_batch_to_yield =
             (if p < length xs mod n then xs ! (length xs div n * n + p) else []),
           ns_vars = (if xs = [] then None else Some (length xs - 1, last xs)),
           ns_yielded = map (\<lambda>g. xs ! (g * n + p)) [0..<length xs div n] \<rparr>"
  using full
proof (induction xs rule: rev_induct)
  case Nil
  show ?case by simp
next
  case (snoc x xs)
  let ?m = "length xs"
  have ih: "foldl (no_split_step s)
           \<lparr> ns_initial_data = [], ns_batch_to_yield = [], ns_vars = None, ns_yielded = [] \<rparr>
           (enumerate 0 xs) =
         \<lparr> ns_initial_data = (if self_drop_last s then [] else concat (take n xs)),
           ns_batch_to_yield = (if p < ?m mod n then xs ! (?m div n * n + p) else []),
           ns_vars = (if xs = [] then None else Some (?m - 1, last xs)),
           ns_yielded = map (\<lambda>g. xs ! (g * n + p)) [0..<?m div n] \<rparr>"
    using snoc by simp
  have x: "int (length x) = self_batch_size s" using snoc.prems by simp
  have step: "foldl (no_split_step s)
           \<lparr> ns_initial_data = [], ns_batch_to_yield = [], ns_vars = None, ns_yielded = [] \<rparr>
           (enumerate 0 (xs @ [x]))
        = no_split_step s
           \<lparr> ns_initial_data = (if self_drop_last s then [] else concat (take n xs)),
             ns_batch_to_yield = (if p < ?m mod n then xs ! (?m div n * n + p) else []),
             ns_vars = (if xs = [] then None else Some (?m - 1, last xs)),
             ns_yielded = map (\<lambda>g. xs ! (g * n + p)) [0..<?m div n] \<rparr>
           (?m, x)"
    using ih by (simp add: enumerate_append_eq)
  have lt: "?m mod n < n" using n by simp
  have old: "map (\<lambda>g. (xs @ [x]) ! (g * n + p)) [0..<?m div n]
      = map (\<lambda>g. xs ! (g * n + p)) [0..<?m div n]"
    using group_index_bound [OF p] by (simp add: nth_append)
  have init: "concat (take n (xs @ [x])) = concat (take n xs) @ (if ?m < n then x else [])"
    by simp
  have pos: "?m div n * n + ?m mod n = ?m" by simp
  show ?case
  proof (cases "?m mod n = n - 1")
    case True
    then have suc0: "Suc ?m mod n = 0" using n by (simp add: mod_Suc)
    then have d: "Suc ?m div n = Suc (?m div n)" by (simp add: div_Suc)
    have last_one: "(if ?m mod n = p then x else if p < ?m mod n
        then xs ! (?m div n * n + p) else []) = (xs @ [x]) ! (?m div n * n + p)"
    proof (cases "?m mod n = p")
      case True
      with pos have "?m div n * n + p = ?m" by simp
      with True show ?thesis by simp
    next
      case False
      with \<open>?m mod n = n - 1\<close> p have "p < ?m mod n" by simp
      with held_index_bound [OF this] False show ?thesis by (simp add: nth_append)
    qed
    have res: "no_split_step s
           \<lparr> ns_initial_data = (if self_drop_last s then [] else concat (take n xs)),
             ns_batch_to_yield = (if p < ?m mod n then xs ! (?m div n * n + p) else []),
             ns_vars = (if xs = [] then None else Some (?m - 1, last xs)),
             ns_yielded = map (\<lambda>g. xs ! (g * n + p)) [0..<?m div n] \<rparr>
           (?m, x)
        = \<lparr> ns_initial_data = (if self_drop_last s then [] else concat (take n (xs @ [x]))),
            ns_batch_to_yield = [],
            ns_vars = Some (?m, x),
            ns_yielded = map (\<lambda>g. xs ! (g * n + p)) [0..<?m div n]
              @ [if ?m mod n = p then x else if p < ?m mod n
                 then xs ! (?m div n * n + p) else []] \<rparr>"
      using True x by (simp add: no_split_step_pair [OF np n])
    show ?thesis
      unfolding step res last_one by (simp add: suc0 d old)
  next
    case False
    then have suc: "Suc ?m mod n = Suc (?m mod n)" using lt by (simp add: mod_Suc)
    then have d: "Suc ?m div n = ?m div n" by (simp add: div_Suc)
    have keep: "p < ?m mod n \<Longrightarrow> (xs @ [x]) ! (?m div n * n + p) = xs ! (?m div n * n + p)"
      using held_index_bound by (simp add: nth_append)
    have new: "?m mod n = p \<Longrightarrow> (xs @ [x]) ! (?m div n * n + p) = x"
      using pos by (simp add: nth_append)
    show ?thesis
      unfolding step no_split_step_pair [OF np n]
      using False keep new by (auto simp: suc d old init less_Suc_eq)
  qed
qed

lemma init_no_split_fields:
  assumes "BatchSamplerShard_init b np pi False = Inr s"
  shows "batch_sampler s = b" and "num_processes s = np" and "process_index s = pi"
    and "self_batch_size s = batch_size b" and "self_drop_last s = drop_last b"
    and "\<not> split_batches s"
  using assms by (auto simp: BatchSamplerShard_init_def)

lemma no_split_all_full_drop:
  assumes s: "batch_sampler s = b" "num_processes s = int n" "process_index s = int p"
      "self_batch_size s = batch_size b" "self_drop_last s = drop_last b"
    and n: "0 < n" and p: "p < n"
    and full: "\<forall>x \<in> set (batches b). int (length x) = batch_size b"
    and stop: "drop_last b \<or> batches b = []"
  shows "iter_with_no_split s =
           Some (Inr (map (\<lambda>g. batches b ! (g * n + p)) [0..<length (batches b) div n]))"
proof -
  have full': "\<forall>x \<in> set (batches b). int (length x) = self_batch_size s"
    using full s(4) by simp
  note st = no_split_loop_full [OF s(2,3) n p full']
  have "num_processes s \<noteq> 0" using s(2) n by simp
  then show ?thesis
    using stop unfolding iter_with_no_split_def s(1) st Let_def
    by (auto simp: s)
qed

lemma first_batches_nonempty:
  assumes "xs \<noteq> []" "0 < n" "hd xs \<noteq> []"
  shows "concat (take n xs) \<noteq> []"
  using assms by (cases xs; cases n) auto

lemma no_split_all_full_wrap:
  assumes s: "batch_sampler s = b" "num_processes s = int n" "process_index s = int p"
      "self_batch_size s = batch_size b" "self_drop_last s = drop_last b"
    and n: "0 < n" and p: "p < n" and bs: "0 < batch_size b"
    and full: "\<forall>x \<in> set (batches b). int (length x) = batch_size b"
    and go: "\<not> drop_last b" "batches b \<noteq> []"
  shows "\<exists>buf. tile_loop (int n * batch_size b) (concat (take n (batches b))) = Some buf
           \<and> int n * batch_size b \<le> int (length buf)
           \<and> iter_with_no_split s =
               Some (Inr (map (\<lambda>g. batches b ! (g * n + p)) [0..<length (batches b) div n]
                 @ (if length (batches b) mod n = 0 then []
                    else [if p < length (batches b) mod n
                          then batches b ! (length (batches b) div n * n + p)
                          else take (nat (batch_size b))
                                 (drop ((p - length (batches b) mod n) * nat (batch_size b))
                                    buf)])))"
proof -
  let ?xs = "batches b"
  let ?L = "length ?xs"
  let ?main = "map (\<lambda>g. ?xs ! (g * n + p)) [0..<?L div n]"
  let ?held = "if p < ?L mod n then ?xs ! (?L div n * n + p) else []"
  have full': "\<forall>x \<in> set ?xs. int (length x) = self_batch_size s"
    using full s(4) by simp
  note st = no_split_loop_full [OF s(2,3) n p full']
  have hd_full: "int (length (hd ?xs)) = batch_size b" using full go(2) by simp
  then have "hd ?xs \<noteq> []" using bs by auto
  then have ne: "concat (take n ?xs) \<noteq> []" by (rule first_batches_nonempty [OF go(2) n])
  obtain buf where buf: "tile_loop (int n * batch_size b) (concat (take n ?xs)) = Some buf"
    "int n * batch_size b \<le> int (length buf)"
    using tile_loop_total [OF ne refl, of "int n * batch_size b"] by blast
  have last_full: "int (length (last ?xs)) = batch_size b" using full go(2) by simp
  have held_len: "int (length ?held) = batch_size b \<longleftrightarrow> p < ?L mod n"
  proof (cases "p < ?L mod n")
    case True
    then have "?L div n * n + p < ?L" by (rule held_index_bound)
    then have "?xs ! (?L div n * n + p) \<in> set ?xs" by simp
    with full True show ?thesis by simp
  next
    case False
    then show ?thesis using bs by simp
  qed
  have L1: "?L - 1 + 1 = ?L" using go(2) by (simp add: Suc_leI)
  have nz: "num_processes s \<noteq> 0" using s(2) n by simp
  have iter: "iter_with_no_split s =
      Some (wrap_loop (int n) (int p) (batch_size b) buf ?L [] 0
              (if p < ?L mod n then ?main @ [?xs ! (?L div n * n + p)] else ?main))"
    using nz go ne buf(1) last_full held_len
    unfolding iter_with_no_split_def s(1) st Let_def
    by (simp add: s L1)
  have bs0: "0 \<le> batch_size b" using bs by simp
  have "iter_with_no_split s =
      Some (Inr (if ?L mod n \<noteq> 0 \<and> ?L mod n \<le> p
           then (if p < ?L mod n then ?main @ [?xs ! (?L div n * n + p)] else ?main)
                @ [take (nat (batch_size b))
                     (drop (nat 0 + (p - ?L mod n) * nat (batch_size b)) buf)]
           else (if p < ?L mod n then ?main @ [?xs ! (?L div n * n + p)] else ?main)))"
    unfolding iter by (simp only: wrap_loop_empty [OF n p order_refl bs0])
  then have "iter_with_no_split s =
               Some (Inr (?main
                 @ (if ?L mod n = 0 then []
                    else [if p < ?L mod n then ?xs ! (?L div n * n + p)
                          else take (nat (batch_size b))
                                 (drop ((p - ?L mod n) * nat (batch_size b)) buf)])))"
    by (auto simp: not_less)
  with buf show ?thesis by blast
qed

lemma no_split_loop_short:
  assumes np: "num_processes s = int n" "process_index s = int p" and n: "0 < n" and p: "p < n"
    and full: "\<forall>y \<in> set xs. int (length y) = self_batch_size s"
    and short: "int (length x) \<noteq> self_batch_size s"
  shows "foldl (no_split_step s)
           \<lparr> ns_initial_data = [], ns_batch_to_yield = [], ns_vars = None, ns_yielded = [] \<rparr>
           (enumerate 0 (xs @ [x])) =
         \<lparr> ns_initial_data = (if self_drop_last s then [] else concat (take n (xs @ [x]))),
           ns_batch_to_yield =
             (if length xs mod n = p then x
              else if p < length xs mod n then xs ! (length xs div n * n + p) else []),
           ns_vars = Some (length xs, x),
           ns_yielded = map (\<lambda>g. xs ! (g * n + p)) [0..<length xs div n] \<rparr>"
proof -
  have "foldl (no_split_step s)
           \<lparr> ns_initial_data = [], ns_batch_to_yield = [], ns_vars = None, ns_yielded = [] \<rparr>
           (enumerate 0 (xs @ [x]))
      = no_split_step s
         (foldl (no_split_step s)
           \<lparr> ns_initial_data = [], ns_batch_to_yield = [], ns_vars = None, ns_yielded = [] \<rparr>
           (enumerate 0 xs)) (length xs, x)"
    by (simp add: enumerate_append_eq)
  then show ?thesis
    unfolding no_split_loop_full [OF np n p full] no_split_step_pair [OF np n]
    using short by simp
qed

lemma no_split_short_drop:
  assumes s: "batch_sampler s = b" "num_processes s = int n" "process_index s = int p"
      "self_batch_size s = batch_size b" "self_drop_last s = drop_last b"
    and n: "0 < n" and p: "p < n"
    and xs: "batches b = xs @ [x]"
    and full: "\<forall>y \<in> set xs. int (length y) = batch_size b"
    and short: "int (length x) \<noteq> batch_size b"
    and stop: "drop_last b"
  shows "iter_with_no_split s =
           Some (Inr (map (\<lambda>g. xs ! (g * n + p)) [0..<length xs div n]))"
proof -
  have full': "\<forall>y \<in> set xs. int (length y) = self_batch_size s"
    using full s(4) by simp
  have short': "int (length x) \<noteq> self_batch_size s" using short s(4) by simp
  note st = no_split_loop_short [OF s(2,3) n p full' short']
  have "num_processes s \<noteq> 0" using s(2) n by simp
  then show ?thesis
    using stop unfolding iter_with_no_split_def s(1) xs st Let_def
    by (simp add: s)
qed

lemma drop_chunk_after_short:
  fixes B l k :: nat
  assumes "l \<le> B" "0 < k" "length x = l"
  shows "drop (k * B) (x @ buf) = drop (B - l + (k - 1) * B) buf"
proof -
  obtain j where k: "k = Suc j" using assms(2) by (cases k) auto
  have "k * B - l = B - l + (k - 1) * B" using assms(1) k by simp
  moreover have "l \<le> k * B" using assms(1) k by simp
  ultimately show ?thesis using assms(3) by simp
qed

lemma no_split_short_wrap:
  assumes s: "batch_sampler s = b" "num_processes s = int n" "process_index s = int p"
      "self_batch_size s = batch_size b" "self_drop_last s = drop_last b"
    and n: "0 < n" and p: "p < n"
    and xs: "batches b = xs @ [x]"
    and full: "\<forall>y \<in> set xs. int (length y) = batch_size b"
    and short: "x \<noteq> []" "int (length x) < batch_size b"
    and go: "\<not> drop_last b"
  shows "\<exists>buf. tile_loop (int n * batch_size b) (concat (take n (batches b))) = Some buf
           \<and> int n * batch_size b \<le> int (length buf)
           \<and> iter_with_no_split s =
               Some (Inr (map (\<lambda>g. xs ! (g * n + p)) [0..<length xs div n]
                 @ [if p < length xs mod n then xs ! (length xs div n * n + p)
                    else take (nat (batch_size b))
                           (drop ((p - length xs mod n) * nat (batch_size b)) (x @ buf))]))"
proof -
  let ?m = "length xs"
  let ?B = "nat (batch_size b)"
  let ?main = "map (\<lambda>g. xs ! (g * n + p)) [0..<?m div n]"
  let ?out1 = "if p < ?m mod n then ?main @ [xs ! (?m div n * n + p)] else ?main"
  have bs: "0 < batch_size b" using short(2) by linarith
  have full': "\<forall>y \<in> set xs. int (length y) = self_batch_size s"
    using full s(4) by simp
  have short': "int (length x) \<noteq> self_batch_size s" using short s(4) by simp
  note st = no_split_loop_short [OF s(2,3) n p full' short']
  have "hd (xs @ [x]) \<noteq> []"
  proof (cases xs)
    case Nil
    then show ?thesis using short(1) by simp
  next
    case (Cons y ys)
    then have "int (length y) = batch_size b" using full by simp
    then show ?thesis using bs Cons by auto
  qed
  then have ne: "concat (take n (xs @ [x])) \<noteq> []"
    by (intro first_batches_nonempty [OF _ n]) simp_all
  obtain buf where buf: "tile_loop (int n * batch_size b) (concat (take n (xs @ [x]))) = Some buf"
    "int n * batch_size b \<le> int (length buf)"
    using tile_loop_total [OF ne refl, of "int n * batch_size b"] by blast
  have held_len: "int (length (if ?m mod n = p then x
              else if p < ?m mod n then xs ! (?m div n * n + p) else [])) = batch_size b
        \<longleftrightarrow> p < ?m mod n"
  proof (cases "p < ?m mod n")
    case True
    then have "?m div n * n + p < ?m" by (rule held_index_bound)
    then have "xs ! (?m div n * n + p) \<in> set xs" by simp
    with full True show ?thesis by simp
  next
    case False
    then show ?thesis using bs short(2) by simp
  qed
  have nz: "num_processes s \<noteq> 0" using s(2) n by simp
  have iter: "iter_with_no_split s =
      Some (wrap_loop (int n) (int p) (batch_size b) buf ?m x 0 ?out1)"
    using nz go ne buf(1) short(2) held_len
    unfolding iter_with_no_split_def s(1) xs st Let_def
    by (simp add: s)
  have lenx: "length x < ?B" using short(2) by linarith
  have c0: "(0::int) \<le> batch_size b - int (length x)" using short(2) by simp
  have natc: "nat (batch_size b - int (length x)) = ?B - length x" by linarith
  have sl: "py_slice buf 0 (batch_size b - int (length x)) = take (?B - length x) buf"
    using py_slice_nonneg [OF order_refl c0, of buf] natc by simp
  have first: "wrap_loop (int n) (int p) (batch_size b) buf ?m x 0 ?out1 =
      wrap_loop (int n) (int p) (batch_size b) buf (Suc ?m) [] (batch_size b - int (length x))
        (if ?m mod n = p then ?out1 @ [x @ take (?B - length x) buf] else ?out1)"
    using n short(1)
    by (subst wrap_loop.simps) (simp add: Let_def sl int_mod_eq_iff)
  have bs0: "0 \<le> batch_size b" using bs by simp
  define r where "r = ?m mod n"
  define R where "R = Suc ?m mod n"
  define held where "held = xs ! (?m div n * n + p)"
  define main where "main = ?main"
  define C where "C = batch_size b - int (length x)"
  have R: "R = (if Suc r = n then 0 else Suc r)" unfolding R_def r_def by (rule mod_Suc)
  have lt: "r < n" unfolding r_def using n by simp
  have natC: "nat C = ?B - length x" unfolding C_def by (rule natc)
  have first': "wrap_loop (int n) (int p) (batch_size b) buf ?m x 0
        (if p < r then main @ [held] else main) =
      wrap_loop (int n) (int p) (batch_size b) buf (Suc ?m) [] C
        (if r = p then (if p < r then main @ [held] else main)
                         @ [x @ take (?B - length x) buf]
         else (if p < r then main @ [held] else main))"
    unfolding r_def held_def main_def C_def by (rule first)
  have rest': "wrap_loop (int n) (int p) (batch_size b) buf (Suc ?m) [] C acc =
           Inr (if R \<noteq> 0 \<and> R \<le> p
                then acc @ [take ?B (drop (nat C + (p - R) * ?B) buf)]
                else acc)" for acc
    unfolding R_def C_def by (rule wrap_loop_empty [OF n p c0 bs0])
  have "wrap_loop (int n) (int p) (batch_size b) buf ?m x 0
        (if p < r then main @ [held] else main) =
      Inr (main @ [if p < r then held else take ?B (drop ((p - r) * ?B) (x @ buf))])"
  proof (cases "p < r")
    case True
    then have ne: "r \<noteq> p" by simp
    have c: "\<not> (R \<noteq> 0 \<and> R \<le> p)"
    proof (cases "Suc r = n")
      case True
      then show ?thesis using R by simp
    next
      case False
      then have "R = Suc r" using R by simp
      then show ?thesis using \<open>p < r\<close> by simp
    qed
    show ?thesis unfolding first' rest' by (simp only: True ne c if_True if_False)
  next
    case False
    show ?thesis
    proof (cases "r = p")
      case True
      have c: "\<not> (R \<noteq> 0 \<and> R \<le> p)"
      proof (cases "Suc r = n")
        case True
        then show ?thesis using R by simp
      next
        case False
        then have "R = Suc r" using R by simp
        then show ?thesis using \<open>r = p\<close> by simp
      qed
      have tk: "x @ take (?B - length x) buf = take ?B (drop ((p - r) * ?B) (x @ buf))"
        using lenx True by simp
      show ?thesis unfolding first' rest' tk
        by (simp only: True c less_irrefl if_True if_False refl)
    next
      case ne: False
      with False have gt: "r < p" by simp
      then have "Suc r \<noteq> n" using p by simp
      then have Rs: "R = Suc r" using R by simp
      have c: "R \<noteq> 0 \<and> R \<le> p" using Rs gt by simp
      have k: "0 < p - r" using gt by simp
      have le: "length x \<le> ?B" using lenx by simp
      have dr: "drop ((p - r) * ?B) (x @ buf) = drop (?B - length x + (p - r - 1) * ?B) buf"
        by (rule drop_chunk_after_short [OF le k refl])
      have idx: "nat C + (p - R) * ?B = ?B - length x + (p - r - 1) * ?B"
        unfolding natC Rs by simp
      show ?thesis unfolding first' rest' idx dr
        by (simp only: ne False c if_True if_False simp_thms)
    qed
  qed
  then have w: "wrap_loop (int n) (int p) (batch_size b) buf ?m x 0 ?out1 =
      Inr (?main @ [if p < ?m mod n then xs ! (?m div n * n + p)
                    else take ?B (drop ((p - ?m mod n) * ?B) (x @ buf))])"
    unfolding r_def held_def main_def .
  have final: "iter_with_no_split s =
      Some (Inr (?main @ [if p < ?m mod n then xs ! (?m div n * n + p)
                    else take ?B (drop ((p - ?m mod n) * ?B) (x @ buf))]))"
    by (simp only: iter w)
  show ?thesis unfolding xs
  proof (intro exI [of _ buf] conjI)
    show "tile_loop (int n * batch_size b) (concat (take n (xs @ [x]))) = Some buf"
      by (rule buf(1))
    show "int n * batch_size b \<le> int (length buf)" by (rule buf(2))
    show "iter_with_no_split s =
      Some (Inr (?main @ [if p < ?m mod n then xs ! (?m div n * n + p)
                    else take ?B (drop ((p - ?m mod n) * ?B) (x @ buf))]))"
      by (rule final)
  qed
qed

lemma uniform_cases:
  assumes "\<forall>y \<in> set (butlast xs). int (length y) = B"
    and "xs \<noteq> [] \<longrightarrow> last xs \<noteq> [] \<and> int (length (last xs)) \<le> B"
  obtains (full) "\<forall>y \<in> set xs. int (length y) = B"
      "filter (\<lambda>y. int (length y) = B) xs = xs"
    | (short) ys x where "xs = ys @ [x]" "\<forall>y \<in> set ys. int (length y) = B"
      "x \<noteq> []" "int (length x) < B" "filter (\<lambda>y. int (length y) = B) xs = ys"
proof (cases "\<forall>y \<in> set xs. int (length y) = B")
  case True
  then have "filter (\<lambda>y. int (length y) = B) xs = xs" by simp
  with True show ?thesis by (rule full)
next
  case False
  then have ne: "xs \<noteq> []" by auto
  then have xs: "xs = butlast xs @ [last xs]" by simp
  have "int (length (last xs)) \<noteq> B"
  proof
    assume "int (length (last xs)) = B"
    then have "\<forall>y \<in> set (butlast xs @ [last xs]). int (length y) = B"
      using assms(1) by simp
    with xs False show False by simp
  qed
  with assms(2) ne have lt: "int (length (last xs)) < B" and l: "last xs \<noteq> []" by auto
  have "filter (\<lambda>y. int (length y) = B) (butlast xs @ [last xs]) = butlast xs"
    using assms(1) lt by simp
  then have "filter (\<lambda>y. int (length y) = B) xs = butlast xs" using xs by simp
  with xs assms(1) l lt show ?thesis by (rule short)
qed

lemma main_nth_append:
  assumes "p < n"
  shows "map (\<lambda>g. (ys @ [x]) ! (g * n + p)) [0..<length ys div n]
       = map (\<lambda>g. ys ! (g * n + p)) [0..<length ys div n]"
  using group_index_bound [OF assms] by (simp add: nth_append)

lemma ceil_div_nat:
  fixes L n :: nat
  assumes "0 < n"
  shows "(L + n - 1) div n = L div n + (if L mod n = 0 then 0 else 1)"
proof -
  obtain k where n: "n = Suc k" using assms by (cases n) auto
  have r: "L mod n < n" using assms by simp
  have d: "(L + k) div n = L div n + k div n + (L mod n + k mod n) div n"
    by (rule div_add1_eq)
  have "k div n = 0" and "k mod n = k" using n by simp_all
  with d have e: "(L + k) div n = L div n + (L mod n + k) div n" by simp
  have "(L mod n + k) div n = (if L mod n = 0 then 0 else 1)"
  proof (cases "L mod n = 0")
    case True
    then show ?thesis using n by simp
  next
    case False
    have le: "L mod Suc k \<le> k" by (rule mod_Suc_le_divisor)
    have "0 < L mod n" using False by simp
    then have "n * 1 \<le> L mod n + k" using n by linarith
    moreover have "L mod n + k < n * Suc 1"
    proof -
      have "n * Suc 1 = Suc k + Suc k" unfolding n by simp
      moreover have "L mod n \<le> k" unfolding n by (rule le)
      ultimately show ?thesis by linarith
    qed
    ultimately have "(L mod n + k) div n = 1" by (rule div_nat_eqI)
    with False show ?thesis by simp
  qed
  with e show ?thesis using n by simp
qed

lemma chunk_length:
  fixes B k :: nat
  assumes "k < n" "n * B \<le> length buf"
  shows "length (take B (drop (k * B) (x @ buf))) = B"
proof -
  have "k * B + B = Suc k * B" by simp
  also have "\<dots> \<le> n * B" using assms(1) by (intro mult_le_mono1) simp
  finally have "k * B + B \<le> length (x @ buf)" using assms(2) by simp
  then show ?thesis by simp
qed

lemma full_prefix:
  assumes "\<forall>y \<in> set (butlast xs). int (length y) = B"
    and "xs \<noteq> [] \<longrightarrow> last xs \<noteq> [] \<and> int (length (last xs)) \<le> B"
    and "i < length (filter (\<lambda>y. int (length y) = B) xs)"
  shows "i < length xs \<and> int (length (xs ! i)) = B"
  using assms(1,2)
proof (cases rule: uniform_cases)
  case full
  with assms(3) show ?thesis by simp
next
  case (short ys x)
  with assms(3) have i: "i < length ys" by simp
  then have "ys ! i \<in> set ys" by simp
  with short(1,2) i show ?thesis by (simp add: nth_append)
qed

lemma no_split_uniform_full:
  assumes s: "batch_sampler s = b" "num_processes s = int n" "process_index s = int p"
      "self_batch_size s = batch_size b" "self_drop_last s = drop_last b"
    and n: "0 < n" and p: "p < n" and bs: "0 < batch_size b"
    and full: "\<forall>y \<in> set (batches b). int (length y) = batch_size b"
  shows "\<exists>tail. iter_with_no_split s =
             Some (Inr (map (\<lambda>g. batches b ! (g * n + p)) [0..<length (batches b) div n] @ tail))
           \<and> (drop_last b \<longrightarrow> tail = [])
           \<and> (\<not> drop_last b \<longrightarrow>
                length (batches b) div n + length tail = (length (batches b) + n - 1) div n)
           \<and> length tail \<le> 1
           \<and> (length (batches b) mod n = 0 \<longrightarrow> tail = [])
           \<and> (\<forall>y \<in> set tail. int (length y) = batch_size b)
           \<and> (\<not> drop_last b \<and> length (batches b) mod n \<noteq> 0 \<longrightarrow>
                length tail = 1
              \<and> (p < length (batches b) mod n \<longrightarrow>
                    tail = [batches b ! (length (batches b) div n * n + p)]))"
proof (cases "drop_last b \<or> batches b = []")
  case True
  have "iter_with_no_split s =
      Some (Inr (map (\<lambda>g. batches b ! (g * n + p)) [0..<length (batches b) div n] @ []))"
    using no_split_all_full_drop [OF s n p full True] by simp
  moreover have "\<not> drop_last b \<longrightarrow>
      length (batches b) div n + length ([] :: 'a list list) = (length (batches b) + n - 1) div n"
    unfolding ceil_div_nat [OF n] using True by auto
  moreover have "\<not> drop_last b \<and> length (batches b) mod n \<noteq> 0 \<longrightarrow>
      length ([] :: 'a list list) = 1
      \<and> (p < length (batches b) mod n \<longrightarrow>
            [] = [batches b ! (length (batches b) div n * n + p)])"
    using True by auto
  ultimately show ?thesis by (intro exI [of _ "[]"]) simp
next
  case False
  then have go: "\<not> drop_last b" "batches b \<noteq> []" by simp_all
  let ?L = "length (batches b)"
  obtain buf where buf: "int n * batch_size b \<le> int (length buf)"
    and iter: "iter_with_no_split s =
               Some (Inr (map (\<lambda>g. batches b ! (g * n + p)) [0..<?L div n]
                 @ (if ?L mod n = 0 then []
                    else [if p < ?L mod n then batches b ! (?L div n * n + p)
                          else take (nat (batch_size b))
                                 (drop ((p - ?L mod n) * nat (batch_size b)) buf)])))"
    using no_split_all_full_wrap [OF s n p bs full go] by blast
  define e where "e = (if p < ?L mod n then batches b ! (?L div n * n + p)
                          else take (nat (batch_size b))
                                 (drop ((p - ?L mod n) * nat (batch_size b)) buf))"
  define tail where "tail = (if ?L mod n = 0 then [] else [e])"
  have "int (n * nat (batch_size b)) = int n * batch_size b" using bs by simp
  with buf have nb: "n * nat (batch_size b) \<le> length buf" by linarith
  have e_len: "int (length e) = batch_size b"
  proof (cases "p < ?L mod n")
    case True
    then have "?L div n * n + p < ?L" by (rule held_index_bound)
    then have "batches b ! (?L div n * n + p) \<in> set (batches b)" by simp
    with full True show ?thesis by (simp add: e_def)
  next
    case False
    have "p - ?L mod n < n" using p by simp
    then have "length (take (nat (batch_size b))
        (drop ((p - ?L mod n) * nat (batch_size b)) ([] @ buf))) = nat (batch_size b)"
      using nb by (rule chunk_length)
    with False bs show ?thesis by (simp add: e_def)
  qed
  have a: "iter_with_no_split s =
      Some (Inr (map (\<lambda>g. batches b ! (g * n + p)) [0..<?L div n] @ tail))"
    unfolding tail_def e_def by (rule iter)
  have b: "?L div n + length tail = (?L + n - 1) div n"
    unfolding tail_def ceil_div_nat [OF n] by simp
  have c: "length tail \<le> 1" "?L mod n = 0 \<longrightarrow> tail = []"
    "\<forall>y \<in> set tail. int (length y) = batch_size b"
    unfolding tail_def using e_len by simp_all
  have d: "\<not> drop_last b \<and> ?L mod n \<noteq> 0 \<longrightarrow>
      length tail = 1 \<and> (p < ?L mod n \<longrightarrow> tail = [batches b ! (?L div n * n + p)])"
    unfolding tail_def e_def by simp
  show ?thesis using a b c d go(1) by (intro exI [of _ tail]) simp
qed

lemma no_split_uniform_short:
  assumes s: "batch_sampler s = b" "num_processes s = int n" "process_index s = int p"
      "self_batch_size s = batch_size b" "self_drop_last s = drop_last b"
    and n: "0 < n" and p: "p < n"
    and xs: "batches b = xs @ [x]"
    and full: "\<forall>y \<in> set xs. int (length y) = batch_size b"
    and short: "x \<noteq> []" "int (length x) < batch_size b"
  shows "\<exists>tail. iter_with_no_split s =
             Some (Inr (map (\<lambda>g. batches b ! (g * n + p)) [0..<length xs div n] @ tail))
           \<and> (drop_last b \<longrightarrow> tail = [])
           \<and> (\<not> drop_last b \<longrightarrow> length tail = 1)
           \<and> (\<forall>y \<in> set tail. int (length y) = batch_size b)
           \<and> (\<not> drop_last b \<and> p < length xs mod n \<longrightarrow>
                tail = [batches b ! (length xs div n * n + p)])"
proof (cases "drop_last b")
  case True
  have ne: "int (length x) \<noteq> batch_size b" using short(2) by simp
  have "iter_with_no_split s =
      Some (Inr (map (\<lambda>g. xs ! (g * n + p)) [0..<length xs div n] @ []))"
    using no_split_short_drop [OF s n p xs full ne True] by simp
  then have "iter_with_no_split s =
      Some (Inr (map (\<lambda>g. batches b ! (g * n + p)) [0..<length xs div n] @ []))"
    unfolding xs main_nth_append [OF p] .
  with True show ?thesis by (intro exI [of _ "[]"]) simp
next
  case False
  let ?m = "length xs"
  obtain buf where buf: "int n * batch_size b \<le> int (length buf)"
    and iter: "iter_with_no_split s =
               Some (Inr (map (\<lambda>g. xs ! (g * n + p)) [0..<?m div n]
                 @ [if p < ?m mod n then xs ! (?m div n * n + p)
                    else take (nat (batch_size b))
                           (drop ((p - ?m mod n) * nat (batch_size b)) (x @ buf))]))"
    using no_split_short_wrap [OF s n p xs full short False] by blast
  define e where "e = (if p < ?m mod n then xs ! (?m div n * n + p)
                    else take (nat (batch_size b))
                           (drop ((p - ?m mod n) * nat (batch_size b)) (x @ buf)))"
  have bs: "0 < batch_size b" using short(2) by linarith
  have "int (n * nat (batch_size b)) = int n * batch_size b" using bs by simp
  with buf have nb: "n * nat (batch_size b) \<le> length buf" by linarith
  have e_len: "int (length e) = batch_size b"
  proof (cases "p < ?m mod n")
    case True
    then have "?m div n * n + p < ?m" by (rule held_index_bound)
    then have "xs ! (?m div n * n + p) \<in> set xs" by simp
    with full True show ?thesis by (simp add: e_def)
  next
    case False
    have "p - ?m mod n < n" using p by simp
    then have "length (take (nat (batch_size b))
        (drop ((p - ?m mod n) * nat (batch_size b)) (x @ buf))) = nat (batch_size b)"
      using nb by (rule chunk_length)
    with False bs show ?thesis by (simp add: e_def)
  qed
  have "iter_with_no_split s =
      Some (Inr (map (\<lambda>g. xs ! (g * n + p)) [0..<?m div n] @ [e]))"
    unfolding e_def by (rule iter)
  then have a: "iter_with_no_split s =
      Some (Inr (map (\<lambda>g. batches b ! (g * n + p)) [0..<?m div n] @ [e]))"
    unfolding xs main_nth_append [OF p] .
  have held: "p < ?m mod n \<longrightarrow> e = batches b ! (?m div n * n + p)"
    unfolding xs e_def using held_index_bound [of p ?m n] by (simp add: nth_append)
  show ?thesis using a e_len held False by (intro exI [of _ "[e]"]) simp
qed


lemma beyond_full_prefix:
  assumes "\<forall>y \<in> set (butlast xs). int (length y) = B"
    and "xs \<noteq> [] \<longrightarrow> last xs \<noteq> [] \<and> int (length (last xs)) \<le> B"
    and "length (filter (\<lambda>y. int (length y) = B) xs) \<le> q"
  shows "\<not> (q < length xs \<and> int (length (xs ! q)) = B)"
  using assms(1,2)
proof (cases rule: uniform_cases)
  case full
  with assms(3) show ?thesis by simp
next
  case (short ys x)
  with assms(3) have q: "length ys \<le> q" by simp
  show ?thesis
  proof (cases "q = length ys")
    case True
    then have "xs ! q = x" using short(1) by simp
    with short(4) show ?thesis by simp
  next
    case False
    with q have "length xs \<le> q" using short(1) by simp
    then show ?thesis by simp
  qed
qed

lemma last_of_final_group:
  fixes F n :: nat
  assumes "0 < n"
  shows "F \<le> F div n * n + (n - 1)"
proof -
  have "F = F div n * n + F mod n" by simp
  moreover have "F mod n < n" using assms by simp
  ultimately show ?thesis by linarith
qed

text \<open>
  C1, as the code has it: on two processes and without \<open>drop_last\<close>, for the pass
  \<open>[[0,1],[2,3],[4,5]]\<close> of full batches, process 0 yields the batch \<open>[4,5]\<close> at position 2,
  although the last position 3 of its group has no batch: after the loop the held batch
  is yielded when it is full.
\<close>

theorem held_batch_yielded_after_pass:
  "shard_iter \<lparr> batch_sampler = \<lparr> batches = [[0, 1], [2, 3], [4, 5::int]],
                                   batch_size = 2, drop_last = False \<rparr>,
                num_processes = 2, process_index = 0, split_batches = False,
                self_batch_size = 2, self_drop_last = False \<rparr>
     = Some (Inr [[0, 1], [4, 5]])
   \<and> batches \<lparr> batches = [[0, 1], [2, 3], [4, 5::int]], batch_size = 2, drop_last = False \<rparr> ! 2
       = [4, 5]
   \<and> \<not> 3 < length (batches \<lparr> batches = [[0, 1], [2, 3], [4, 5::int]], batch_size = 2,
                               drop_last = False \<rparr>)"
proof -
  let ?b = "\<lparr> batches = [[0, 1], [2, 3], [4, 5::int]], batch_size = 2, drop_last = False \<rparr>"
  let ?s = "\<lparr> batch_sampler = ?b, num_processes = 2, process_index = 0,
              split_batches = False, self_batch_size = 2, self_drop_last = False \<rparr>"
  have tl: "tile_loop 4 [0, 1, 2, 3::int] = Some [0, 1, 2, 3]"
    by (subst tile_loop.simps) simp
  have w4: "wrap_loop 2 0 2 [0, 1, 2, 3::int] 4 [] 2 [[0, 1], [4, 5]] = Inr [[0, 1], [4, 5]]"
    by (subst wrap_loop.simps) simp
  have w3: "wrap_loop 2 0 2 [0, 1, 2, 3::int] 3 [] 0 [[0, 1], [4, 5]] = Inr [[0, 1], [4, 5]]"
    by (subst wrap_loop.simps) (simp add: w4 py_slice_def)
  have w: "wrap_loop 2 0 2 [0, 1, 2, 3::int] (Suc (Suc (Suc 0))) [] 0 [[0, 1], [4, 5]]
      = Inr [[0, 1], [4, 5]]"
    using w3 by (simp add: numeral_3_eq_3)
  have "iter_with_no_split ?s = Some (Inr [[0, 1], [4, 5]])"
    by (simp add: iter_with_no_split_def no_split_step_def enumerate_eq_zip tl w)
  then show ?thesis by (simp add: shard_iter_def)
qed

text \<open>
  C1, amended: without \<open>split_batches\<close>, for a pass whose batches all have \<open>batch_size\<close>
  elements except possibly the last (which is not empty and not longer), a positive
  process count \<open>np\<close> and a process index \<open>0 \<le> pi < np\<close>: the process yields first the
  batches at the positions \<open>g * np + pi\<close> (whose remainder modulo \<open>np\<close> is \<open>pi\<close>) of the
  groups \<open>g < F div np\<close>, where \<open>F\<close> is the number of full batches, and for each of these
  groups the batch at its last position \<open>g * np + (np - 1)\<close> exists and is full. Nothing
  follows when \<open>drop_last\<close> holds or when the pass is a whole number of full groups.
  Otherwise exactly one more batch follows, of \<open>batch_size\<close> elements, and when the
  position \<open>F div np * np + pi\<close> of the process in the final group is before the end of the
  full batches it is the batch at that position, yielded after the pass although the
  batch at the last position of that group is missing or short. The instance of the
  upstream \<open>[[0,1,2,3],[4,5,6,7]]\<close> on two processes is the theorem after this one.
\<close>

theorem whole_batch_round_robin:
  assumes init: "BatchSamplerShard_init b np pi False = Inr s"
    and pi: "0 \<le> pi" "pi < np"
    and bs: "0 < batch_size b"
    and uniform: "\<forall>y \<in> set (butlast (batches b)). int (length y) = batch_size b"
    and lastb: "batches b \<noteq> [] \<longrightarrow>
        last (batches b) \<noteq> [] \<and> int (length (last (batches b))) \<le> batch_size b"
  shows "(\<exists>tail. shard_iter s =
             Some (Inr (map (\<lambda>g. batches b ! (g * nat np + nat pi))
                 [0..<length (filter (\<lambda>y. int (length y) = batch_size b) (batches b))
                        div nat np] @ tail))
           \<and> length tail \<le> 1
           \<and> (drop_last b \<or> (length (batches b) mod nat np = 0
                  \<and> (\<forall>y \<in> set (batches b). int (length y) = batch_size b))
                \<longrightarrow> tail = [])
           \<and> (\<not> drop_last b \<and> \<not> (length (batches b) mod nat np = 0
                  \<and> (\<forall>y \<in> set (batches b). int (length y) = batch_size b))
                \<longrightarrow> length tail = 1
                  \<and> (\<forall>e \<in> set tail. int (length e) = batch_size b)
                  \<and> (nat pi < length (filter (\<lambda>y. int (length y) = batch_size b) (batches b))
                                 mod nat np
                       \<longrightarrow> tail = [batches b !
                             (length (filter (\<lambda>y. int (length y) = batch_size b) (batches b))
                                div nat np * nat np + nat pi)])))
       \<and> (\<forall>g < length (filter (\<lambda>y. int (length y) = batch_size b) (batches b)) div nat np.
             (g * nat np + nat pi) mod nat np = nat pi
           \<and> g * nat np + (nat np - 1) < length (batches b)
           \<and> int (length (batches b ! (g * nat np + (nat np - 1)))) = batch_size b)
       \<and> \<not> (length (filter (\<lambda>y. int (length y) = batch_size b) (batches b)) div nat np * nat np
                + (nat np - 1) < length (batches b)
            \<and> int (length (batches b !
                  (length (filter (\<lambda>y. int (length y) = batch_size b) (batches b))
                     div nat np * nat np + (nat np - 1)))) = batch_size b)"
proof -
  define n where "n = nat np"
  define p where "p = nat pi"
  have n: "0 < n" and p: "p < n" and np: "np = int n" and pi': "pi = int p"
    using pi by (simp_all add: n_def p_def)
  note f = init_no_split_fields [OF init]
  have s: "batch_sampler s = b" "num_processes s = int n" "process_index s = int p"
      "self_batch_size s = batch_size b" "self_drop_last s = drop_last b"
    using f np pi' by simp_all
  have iter: "shard_iter s = iter_with_no_split s" using f(6) by (simp add: shard_iter_def)
  define F where "F = length (filter (\<lambda>y. int (length y) = batch_size b) (batches b))"
  define allfull where "allfull \<longleftrightarrow> (\<forall>y \<in> set (batches b). int (length y) = batch_size b)"
  have part1: "\<exists>tail. shard_iter s =
             Some (Inr (map (\<lambda>g. batches b ! (g * n + p)) [0..<F div n] @ tail))
           \<and> length tail \<le> 1
           \<and> (drop_last b \<or> (length (batches b) mod n = 0 \<and> allfull) \<longrightarrow> tail = [])
           \<and> (\<not> drop_last b \<and> \<not> (length (batches b) mod n = 0 \<and> allfull)
                \<longrightarrow> length tail = 1
                  \<and> (\<forall>e \<in> set tail. int (length e) = batch_size b)
                  \<and> (p < F mod n \<longrightarrow> tail = [batches b ! (F div n * n + p)]))"
    using uniform lastb
  proof (cases rule: uniform_cases)
    case full
    obtain tail where t: "iter_with_no_split s =
             Some (Inr (map (\<lambda>g. batches b ! (g * n + p)) [0..<length (batches b) div n] @ tail))"
      "drop_last b \<longrightarrow> tail = []"
      "\<not> drop_last b \<longrightarrow>
         length (batches b) div n + length tail = (length (batches b) + n - 1) div n"
      "length tail \<le> 1"
      "length (batches b) mod n = 0 \<longrightarrow> tail = []"
      "\<forall>y \<in> set tail. int (length y) = batch_size b"
      "\<not> drop_last b \<and> length (batches b) mod n \<noteq> 0 \<longrightarrow>
                length tail = 1
              \<and> (p < length (batches b) mod n \<longrightarrow>
                    tail = [batches b ! (length (batches b) div n * n + p)])"
      using no_split_uniform_full [OF s n p bs full(1)]
      by (elim exE conjE) (rule that; assumption)
    have F: "F = length (batches b)" unfolding F_def full(2) by (rule refl)
    have af: allfull unfolding allfull_def by (rule full(1))
    show ?thesis
    proof (intro exI [of _ tail] conjI)
      show "shard_iter s = Some (Inr (map (\<lambda>g. batches b ! (g * n + p)) [0..<F div n] @ tail))"
        unfolding iter F by (rule t(1))
      show "length tail \<le> 1" by (rule t(4))
      show "drop_last b \<or> (length (batches b) mod n = 0 \<and> allfull) \<longrightarrow> tail = []"
        using t(2,5) by auto
      show "\<not> drop_last b \<and> \<not> (length (batches b) mod n = 0 \<and> allfull)
                \<longrightarrow> length tail = 1
                  \<and> (\<forall>e \<in> set tail. int (length e) = batch_size b)
                  \<and> (p < F mod n \<longrightarrow> tail = [batches b ! (F div n * n + p)])"
        unfolding F using t(6,7) af by auto
    qed
  next
    case (short ys x)
    obtain tail where t: "iter_with_no_split s =
             Some (Inr (map (\<lambda>g. batches b ! (g * n + p)) [0..<length ys div n] @ tail))"
      "drop_last b \<longrightarrow> tail = []" "\<not> drop_last b \<longrightarrow> length tail = 1"
      "\<forall>y \<in> set tail. int (length y) = batch_size b"
      "\<not> drop_last b \<and> p < length ys mod n \<longrightarrow>
                tail = [batches b ! (length ys div n * n + p)]"
      using no_split_uniform_short [OF s n p short(1,2,3,4)]
      by (elim exE conjE) (rule that; assumption)
    have F: "F = length ys" unfolding F_def short(5) by (rule refl)
    have x: "x \<in> set (batches b)" using short(1) by simp
    have "int (length x) \<noteq> batch_size b" using short(4) by simp
    with x have notfull: "\<not> allfull" unfolding allfull_def by blast
    show ?thesis
    proof (intro exI [of _ tail] conjI)
      show "shard_iter s = Some (Inr (map (\<lambda>g. batches b ! (g * n + p)) [0..<F div n] @ tail))"
        unfolding iter F by (rule t(1))
      show "length tail \<le> 1" using t(2,3) by (cases "drop_last b") simp_all
      show "drop_last b \<or> (length (batches b) mod n = 0 \<and> allfull) \<longrightarrow> tail = []"
        using t(2) notfull by auto
      show "\<not> drop_last b \<and> \<not> (length (batches b) mod n = 0 \<and> allfull)
                \<longrightarrow> length tail = 1
                  \<and> (\<forall>e \<in> set tail. int (length e) = batch_size b)
                  \<and> (p < F mod n \<longrightarrow> tail = [batches b ! (F div n * n + p)])"
        unfolding F using t(3,4,5) by auto
    qed
  qed
  have part2: "\<forall>g < F div n. (g * n + p) mod n = p
           \<and> g * n + (n - 1) < length (batches b)
           \<and> int (length (batches b ! (g * n + (n - 1)))) = batch_size b"
  proof (intro allI impI)
    fix g assume g: "g < F div n"
    have "n - 1 < n" using n by simp
    then have "g * n + (n - 1) < F" using g by (rule group_index_bound)
    then have "g * n + (n - 1)
        < length (filter (\<lambda>y. int (length y) = batch_size b) (batches b))"
      unfolding F_def .
    from full_prefix [OF uniform lastb this]
    show "(g * n + p) mod n = p
           \<and> g * n + (n - 1) < length (batches b)
           \<and> int (length (batches b ! (g * n + (n - 1)))) = batch_size b"
      using p by simp
  qed
  have "F \<le> F div n * n + (n - 1)" using n by (rule last_of_final_group)
  then have "length (filter (\<lambda>y. int (length y) = batch_size b) (batches b))
      \<le> F div n * n + (n - 1)" unfolding F_def .
  from beyond_full_prefix [OF uniform lastb this]
  have part3: "\<not> (F div n * n + (n - 1) < length (batches b)
        \<and> int (length (batches b ! (F div n * n + (n - 1)))) = batch_size b)" .
  show ?thesis
    unfolding n_def [symmetric] p_def [symmetric] F_def [symmetric] allfull_def [symmetric]
    using part1 part2 part3 by (intro conjI)
qed

theorem whole_batch_round_robin_witness:
  "shard_iter \<lparr> batch_sampler = \<lparr> batches = [[0, 1, 2, 3], [4, 5, 6, 7::int]],
                                   batch_size = 4, drop_last = False \<rparr>,
                num_processes = 2, process_index = 0, split_batches = False,
                self_batch_size = 4, self_drop_last = False \<rparr>
     = Some (Inr [[0, 1, 2, 3]])
   \<and> shard_iter \<lparr> batch_sampler = \<lparr> batches = [[0, 1, 2, 3], [4, 5, 6, 7::int]],
                                   batch_size = 4, drop_last = False \<rparr>,
                num_processes = 2, process_index = 1, split_batches = False,
                self_batch_size = 4, self_drop_last = False \<rparr>
     = Some (Inr [[4, 5, 6, 7]])"
proof -
  let ?b = "\<lparr> batches = [[0, 1, 2, 3], [4, 5, 6, 7::int]], batch_size = 4, drop_last = False \<rparr>"
  let ?s = "\<lambda>i. \<lparr> batch_sampler = ?b, num_processes = 2, process_index = i,
              split_batches = False, self_batch_size = 4, self_drop_last = False \<rparr>"
  have i: "BatchSamplerShard_init ?b 2 i False = Inr (?s i)" for i
    by (simp add: BatchSamplerShard_init_def)
  have h: "(0::int) \<le> 0" "(0::int) < 2" "(0::int) \<le> 1" "(1::int) < 2" "0 < batch_size ?b"
    "\<forall>y \<in> set (butlast (batches ?b)). int (length y) = batch_size ?b"
    "batches ?b \<noteq> [] \<longrightarrow>
        last (batches ?b) \<noteq> [] \<and> int (length (last (batches ?b))) \<le> batch_size ?b"
    by simp_all
  have n2: "nat 2 = Suc (Suc 0)" by simp
  from conjunct1 [OF whole_batch_round_robin [OF i h(1,2,5,6,7)]]
  have a: "shard_iter (?s 0) = Some (Inr [[0, 1, 2, 3]])"
    by (auto simp: n2)
  from conjunct1 [OF whole_batch_round_robin [OF i h(3,4,5,6,7)]]
  have b: "shard_iter (?s 1) = Some (Inr [[4, 5, 6, 7]])"
    by (auto simp: n2)
  from a b show ?thesis by simp
qed

text \<open>
  C2: without \<open>split_batches\<close>, for a pass whose batches are full except the last, which
  is short and not empty; \<open>m\<close> is the number of full batches, so the final group starts
  at \<open>m div np * np\<close> and the short batch is at position \<open>m\<close>. When \<open>drop_last\<close> holds
  the process yields the batches of the groups before the final one and nothing else.
  When it does not, the buffer is the concatenation of the first \<open>np\<close> batches, tiled by
  \<open>tile_loop\<close> to at least \<open>np * batch_size\<close> elements (the loop terminates); after the
  earlier groups the process yields one more batch: its held full batch when its position
  in the final group is before the short batch, and otherwise the chunk number
  \<open>pi - m mod np\<close>, of \<open>batch_size\<close> elements, of the short batch followed by the buffer.
  So every process yields \<open>m div np + 1\<close> batches. The instance of the upstream
  \<open>[[0,1,2,3],[4,5,6,7],[8,9]]\<close> on two processes is the theorem after this one.
\<close>

theorem whole_batch_short_final_group:
  assumes init: "BatchSamplerShard_init b np pi False = Inr s"
    and pi: "0 \<le> pi" "pi < np"
    and ne: "batches b \<noteq> []"
    and uniform: "\<forall>y \<in> set (butlast (batches b)). int (length y) = batch_size b"
    and short: "last (batches b) \<noteq> []" "int (length (last (batches b))) < batch_size b"
  shows "(drop_last b \<longrightarrow>
            shard_iter s = Some (Inr (map (\<lambda>g. batches b ! (g * nat np + nat pi))
                [0..<(length (batches b) - 1) div nat np])))
       \<and> (\<not> drop_last b \<longrightarrow>
            (\<exists>buf. tile_loop (np * batch_size b) (concat (take (nat np) (batches b))) = Some buf
               \<and> np * batch_size b \<le> int (length buf)
               \<and> shard_iter s = Some (Inr (map (\<lambda>g. batches b ! (g * nat np + nat pi))
                     [0..<(length (batches b) - 1) div nat np]
                   @ [if nat pi < (length (batches b) - 1) mod nat np
                      then batches b ! ((length (batches b) - 1) div nat np * nat np + nat pi)
                      else take (nat (batch_size b))
                             (drop ((nat pi - (length (batches b) - 1) mod nat np)
                                      * nat (batch_size b))
                                (last (batches b) @ buf))]))))"
proof -
  define n where "n = nat np"
  define p where "p = nat pi"
  define xs where "xs = butlast (batches b)"
  define x where "x = last (batches b)"
  have n: "0 < n" and p: "p < n" and np: "np = int n" and pi': "pi = int p"
    using pi by (simp_all add: n_def p_def)
  note f = init_no_split_fields [OF init]
  have s: "batch_sampler s = b" "num_processes s = int n" "process_index s = int p"
      "self_batch_size s = batch_size b" "self_drop_last s = drop_last b"
    using f np pi' by simp_all
  have iter: "shard_iter s = iter_with_no_split s" using f(6) by (simp add: shard_iter_def)
  have bx: "batches b = xs @ [x]" using ne by (simp add: xs_def x_def)
  have m: "length (batches b) - 1 = length xs" by (simp add: xs_def)
  have full: "\<forall>y \<in> set xs. int (length y) = batch_size b" using uniform by (simp add: xs_def)
  have sh: "x \<noteq> []" "int (length x) < batch_size b" using short by (simp_all add: x_def)
  have neq: "int (length x) \<noteq> batch_size b" using sh(2) by simp
  have main: "map (\<lambda>g. xs ! (g * n + p)) [0..<length xs div n]
      = map (\<lambda>g. batches b ! (g * n + p)) [0..<length xs div n]"
    unfolding bx by (rule main_nth_append [OF p, symmetric])
  have held: "p < length xs mod n \<Longrightarrow>
      xs ! (length xs div n * n + p) = batches b ! (length xs div n * n + p)"
    unfolding bx using held_index_bound by (simp add: nth_append)
  have d: "drop_last b \<Longrightarrow>
      shard_iter s = Some (Inr (map (\<lambda>g. batches b ! (g * n + p)) [0..<length xs div n]))"
    unfolding iter main [symmetric] by (rule no_split_short_drop [OF s n p bx full neq])
  have w: "\<exists>buf. tile_loop (int n * batch_size b) (concat (take n (batches b))) = Some buf
               \<and> int n * batch_size b \<le> int (length buf)
               \<and> shard_iter s = Some (Inr (map (\<lambda>g. batches b ! (g * n + p))
                     [0..<length xs div n]
                   @ [if p < length xs mod n
                      then batches b ! (length xs div n * n + p)
                      else take (nat (batch_size b))
                             (drop ((p - length xs mod n) * nat (batch_size b)) (x @ buf))]))"
    if nd: "\<not> drop_last b"
  proof -
    obtain buf where buf:
      "tile_loop (int n * batch_size b) (concat (take n (batches b))) = Some buf"
      "int n * batch_size b \<le> int (length buf)"
      "iter_with_no_split s =
               Some (Inr (map (\<lambda>g. xs ! (g * n + p)) [0..<length xs div n]
                 @ [if p < length xs mod n then xs ! (length xs div n * n + p)
                    else take (nat (batch_size b))
                           (drop ((p - length xs mod n) * nat (batch_size b)) (x @ buf))]))"
      using no_split_short_wrap [OF s n p bx full sh nd]
      by (elim exE conjE) (rule that; assumption)
    have e: "(if p < length xs mod n then xs ! (length xs div n * n + p)
                    else take (nat (batch_size b))
                           (drop ((p - length xs mod n) * nat (batch_size b)) (x @ buf)))
        = (if p < length xs mod n then batches b ! (length xs div n * n + p)
                    else take (nat (batch_size b))
                           (drop ((p - length xs mod n) * nat (batch_size b)) (x @ buf)))"
      using held by simp
    have "shard_iter s = Some (Inr (map (\<lambda>g. batches b ! (g * n + p))
                     [0..<length xs div n]
                   @ [if p < length xs mod n
                      then batches b ! (length xs div n * n + p)
                      else take (nat (batch_size b))
                             (drop ((p - length xs mod n) * nat (batch_size b)) (x @ buf))]))"
      unfolding iter buf(3) main e by (rule refl)
    with buf(1,2) show ?thesis by (intro exI [of _ buf] conjI)
  qed
  show ?thesis
    unfolding m np nat_int n_def [symmetric] p_def [symmetric] x_def [symmetric]
    using d w by (intro conjI impI)
qed

theorem whole_batch_short_final_group_witness:
  "shard_iter \<lparr> batch_sampler = \<lparr> batches = [[0, 1, 2, 3], [4, 5, 6, 7], [8, 9::int]],
                                   batch_size = 4, drop_last = False \<rparr>,
                num_processes = 2, process_index = 0, split_batches = False,
                self_batch_size = 4, self_drop_last = False \<rparr>
     = Some (Inr [[0, 1, 2, 3], [8, 9, 0, 1]])
   \<and> shard_iter \<lparr> batch_sampler = \<lparr> batches = [[0, 1, 2, 3], [4, 5, 6, 7], [8, 9::int]],
                                   batch_size = 4, drop_last = False \<rparr>,
                num_processes = 2, process_index = 1, split_batches = False,
                self_batch_size = 4, self_drop_last = False \<rparr>
     = Some (Inr [[4, 5, 6, 7], [2, 3, 4, 5]])"
proof -
  let ?b = "\<lparr> batches = [[0, 1, 2, 3], [4, 5, 6, 7], [8, 9::int]], batch_size = 4,
              drop_last = False \<rparr>"
  let ?s = "\<lambda>i. \<lparr> batch_sampler = ?b, num_processes = 2, process_index = i,
              split_batches = False, self_batch_size = 4, self_drop_last = False \<rparr>"
  have i: "BatchSamplerShard_init ?b 2 i False = Inr (?s i)" for i
    by (simp add: BatchSamplerShard_init_def)
  have h: "(0::int) \<le> 0" "(0::int) < 2" "(0::int) \<le> 1" "(1::int) < 2"
    "batches ?b \<noteq> []"
    "\<forall>y \<in> set (butlast (batches ?b)). int (length y) = batch_size ?b"
    "last (batches ?b) \<noteq> []" "int (length (last (batches ?b))) < batch_size ?b"
    by simp_all
  have n2: "nat 2 = Suc (Suc 0)" by simp
  have tl: "tile_loop 8 [0, 1, 2, 3, 4, 5, 6, 7::int] = Some [0, 1, 2, 3, 4, 5, 6, 7]"
    by (subst tile_loop.simps) simp
  from conjunct2 [OF whole_batch_short_final_group [OF i h(1,2,5,6,7,8)]]
  have a: "shard_iter (?s 0) = Some (Inr [[0, 1, 2, 3], [8, 9, 0, 1]])"
    by (auto simp: n2 tl)
  from conjunct2 [OF whole_batch_short_final_group [OF i h(3,4,5,6,7,8)]]
  have b: "shard_iter (?s 1) = Some (Inr [[4, 5, 6, 7], [2, 3, 4, 5]])"
    by (auto simp: n2 tl)
  from a b show ?thesis by simp
qed

subsection \<open>Numbers of batches\<close>

lemma split_uniform:
  assumes init: "BatchSamplerShard_init b np pi True = Inr s"
    and pi: "0 \<le> pi" "pi < np"
    and bs: "0 < batch_size b"
    and uniform: "\<forall>y \<in> set (butlast (batches b)). int (length y) = batch_size b"
    and lastb: "batches b \<noteq> [] \<longrightarrow>
        last (batches b) \<noteq> [] \<and> int (length (last (batches b))) \<le> batch_size b"
  shows "\<exists>ys. iter_with_split s = Some (Inr ys)
           \<and> length ys = (if drop_last b
                           then length (filter (\<lambda>y. int (length y) = batch_size b) (batches b))
                           else length (batches b))
           \<and> (\<forall>y \<in> set ys. int (length y) = batch_size b div np)"
proof -
  note f = init_split_fields [OF init]
  let ?bl = "batch_size b div np"
  let ?full = "filter (\<lambda>y. int (length y) = batch_size b) (batches b)"
  have bsz: "0 \<le> batch_size b" using bs by simp
  note bnd = slice_bound [OF f(2) pi bsz]
  have slice_len: "int (length (shard_slice ?bl pi y)) = ?bl"
    if "batch_size b \<le> int (length y)" for y :: "'a list"
  proof -
    have "?bl * (pi + 1) \<le> int (length y)" using bnd(2) that by linarith
    then have "length (shard_slice ?bl pi y) = nat ?bl"
      by (rule shard_slice_length [OF bnd(1) pi(1)])
    then show ?thesis using bnd(1) by simp
  qed
  have main_len: "\<forall>y \<in> set (map (shard_slice ?bl pi) ?full). int (length y) = ?bl"
    using slice_len by auto
  show ?thesis
  proof (cases "\<not> drop_last b \<and> batches b \<noteq> []
        \<and> int (length (last (batches b))) < batch_size b")
    case False
    then have nowrap: "drop_last b \<or> batches b = [] \<or> hd (batches b) = []
        \<or> \<not> int (length (last (batches b))) < batch_size b" by blast
    have iter: "iter_with_split s = Some (Inr (map (shard_slice ?bl pi) ?full))"
      by (rule iter_with_split_no_wrap [OF init nowrap])
    have len: "\<not> drop_last b \<Longrightarrow> length ?full = length (batches b)"
      using uniform lastb
    proof (cases rule: uniform_cases)
      case full
      then show ?thesis by simp
    next
      case (short ys x)
      assume "\<not> drop_last b"
      with False short(1,4) show ?thesis by simp
    qed
    have "length (map (shard_slice ?bl pi) ?full)
        = (if drop_last b then length ?full else length (batches b))"
      using len by simp
    with iter main_len show ?thesis by (intro exI [of _ "map (shard_slice ?bl pi) ?full"] conjI)
  next
    case True
    then have w: "\<not> drop_last b" "batches b \<noteq> []"
      "int (length (last (batches b))) < batch_size b" by simp_all
    from uniform lastb
    have "hd (batches b) \<noteq> [] \<and> Suc (length ?full) = length (batches b)"
    proof (cases rule: uniform_cases)
      case full
      have "last (batches b) \<in> set (batches b)" using w(2) by simp
      with full(1) w(3) have False by auto
      then show ?thesis by simp
    next
      case (short ys x)
      have "hd (batches b) \<noteq> []"
      proof (cases ys)
        case Nil
        with short(1,3) show ?thesis by simp
      next
        case (Cons y ys')
        then have "int (length y) = batch_size b" using short(2) by simp
        with bs have "y \<noteq> []" by auto
        with Cons short(1) show ?thesis by simp
      qed
      moreover have "Suc (length ?full) = length (batches b)" using short(1,5) by simp
      ultimately show ?thesis by simp
    qed
    then have hd_ne: "hd (batches b) \<noteq> []"
      and len: "Suc (length ?full) = length (batches b)" by simp_all
    obtain tiled where t: "batch_size b \<le> int (length tiled)"
      "iter_with_split s =
         Some (Inr (map (shard_slice ?bl pi) ?full
                 @ [shard_slice ?bl pi (last (batches b) @ tiled)]))"
      using iter_with_split_wrap [OF init pi w(1,2) hd_ne w(3)]
      by (elim exE conjE) (rule that; assumption)
    let ?ys = "map (shard_slice ?bl pi) ?full @ [shard_slice ?bl pi (last (batches b) @ tiled)]"
    have "batch_size b \<le> int (length (last (batches b) @ tiled))" using t(1) by simp
    then have "int (length (shard_slice ?bl pi (last (batches b) @ tiled))) = ?bl"
      by (rule slice_len)
    with main_len have a: "\<forall>y \<in> set ?ys. int (length y) = ?bl" by simp
    have "length ?ys = (if drop_last b then length ?full else length (batches b))"
      using w(1) len by simp
    with t(2) a show ?thesis by (intro exI [of _ ?ys] conjI)
  qed
qed

lemma no_split_uniform:
  assumes s: "batch_sampler s = b" "num_processes s = int n" "process_index s = int p"
      "self_batch_size s = batch_size b" "self_drop_last s = drop_last b"
    and n: "0 < n" and p: "p < n" and bs: "0 < batch_size b"
    and uniform: "\<forall>y \<in> set (butlast (batches b)). int (length y) = batch_size b"
    and lastb: "batches b \<noteq> [] \<longrightarrow>
        last (batches b) \<noteq> [] \<and> int (length (last (batches b))) \<le> batch_size b"
  shows "\<exists>ys. iter_with_no_split s = Some (Inr ys)
           \<and> length ys = (if drop_last b
                           then length (filter (\<lambda>y. int (length y) = batch_size b) (batches b))
                                  div n
                           else (length (batches b) + n - 1) div n)
           \<and> (\<forall>y \<in> set ys. int (length y) = batch_size b)"
proof -
  define F where "F = length (filter (\<lambda>y. int (length y) = batch_size b) (batches b))"
  let ?main = "map (\<lambda>g. batches b ! (g * n + p)) [0..<F div n]"
  have main_len: "\<forall>y \<in> set ?main. int (length y) = batch_size b"
  proof
    fix y assume "y \<in> set ?main"
    then obtain g where g: "g < F div n" and y: "y = batches b ! (g * n + p)" by auto
    from p g have "g * n + p < F" by (rule group_index_bound)
    then have "g * n + p < length (filter (\<lambda>y. int (length y) = batch_size b) (batches b))"
      unfolding F_def .
    from full_prefix [OF uniform lastb this] show "int (length y) = batch_size b"
      unfolding y by simp
  qed
  have "\<exists>tail. iter_with_no_split s = Some (Inr (?main @ tail))
      \<and> length tail = (if drop_last b then 0 else (length (batches b) + n - 1) div n - F div n)
      \<and> F div n \<le> (length (batches b) + n - 1) div n
      \<and> (\<forall>y \<in> set tail. int (length y) = batch_size b)"
    using uniform lastb
  proof (cases rule: uniform_cases)
    case full
    have F: "F = length (batches b)" unfolding F_def full(2) by (rule refl)
    obtain tail where t: "iter_with_no_split s =
             Some (Inr (map (\<lambda>g. batches b ! (g * n + p)) [0..<length (batches b) div n] @ tail))"
      "drop_last b \<longrightarrow> tail = []"
      "\<not> drop_last b \<longrightarrow>
         length (batches b) div n + length tail = (length (batches b) + n - 1) div n"
      "\<forall>y \<in> set tail. int (length y) = batch_size b"
      using no_split_uniform_full [OF s n p bs full(1)]
      by (elim exE conjE) (rule that; assumption)
    have le: "length (batches b) div n \<le> (length (batches b) + n - 1) div n"
      unfolding ceil_div_nat [OF n] by simp
    have "length tail
        = (if drop_last b then 0
           else (length (batches b) + n - 1) div n - length (batches b) div n)"
      using t(2,3) by (cases "drop_last b") simp_all
    with t(1,4) le show ?thesis unfolding F by (intro exI [of _ tail] conjI)
  next
    case (short ys x)
    have F: "F = length ys" unfolding F_def short(5) by (rule refl)
    obtain tail where t: "iter_with_no_split s =
             Some (Inr (map (\<lambda>g. batches b ! (g * n + p)) [0..<length ys div n] @ tail))"
      "drop_last b \<longrightarrow> tail = []" "\<not> drop_last b \<longrightarrow> length tail = 1"
      "\<forall>y \<in> set tail. int (length y) = batch_size b"
      using no_split_uniform_short [OF s n p short(1,2,3,4)]
      by (elim exE conjE) (rule that; assumption)
    have e: "length (batches b) + n - 1 = length ys + n" using short(1) by simp
    have "(length ys + n) div n = length ys div n + 1"
      using n by (simp add: div_add_self2)
    then have c: "(length (batches b) + n - 1) div n = length ys div n + 1"
      unfolding e .
    have "length tail
        = (if drop_last b then 0
           else (length (batches b) + n - 1) div n - length ys div n)"
      unfolding c using t(2,3) by (cases "drop_last b") simp_all
    moreover have "length ys div n \<le> (length (batches b) + n - 1) div n"
      unfolding c by simp
    ultimately show ?thesis using t(1,4) unfolding F by (intro exI [of _ tail] conjI)
  qed
  then obtain tail where t: "iter_with_no_split s = Some (Inr (?main @ tail))"
      "length tail = (if drop_last b then 0 else (length (batches b) + n - 1) div n - F div n)"
      "F div n \<le> (length (batches b) + n - 1) div n"
      "\<forall>y \<in> set tail. int (length y) = batch_size b"
    by (elim exE conjE) (rule that; assumption)
  have a: "length (?main @ tail)
      = (if drop_last b then F div n else (length (batches b) + n - 1) div n)"
    using t(2,3) by simp
  have b: "\<forall>y \<in> set (?main @ tail). int (length y) = batch_size b"
    using main_len t(4) by auto
  show ?thesis
    unfolding F_def [symmetric] using t(1) a b by (intro exI [of _ "?main @ tail"] conjI)
qed

text \<open>
  C5, as the code has it: with \<open>split_batches\<close> and \<open>drop_last\<close>, on two processes, the pass
  \<open>[[0,1,2,3],[4,5,6,7]]\<close> of length 2 makes each process yield two slices: the processes
  yield four batches together, not \<open>2 - 2 mod 2 = 2\<close>.
\<close>

theorem split_drop_last_total:
  "shard_iter \<lparr> batch_sampler = \<lparr> batches = [[0, 1, 2, 3], [4, 5, 6, 7::int]],
                                   batch_size = 4, drop_last = True \<rparr>,
                num_processes = 2, process_index = 0, split_batches = True,
                self_batch_size = 4, self_drop_last = True \<rparr>
     = Some (Inr [[0, 1], [4, 5]])
   \<and> shard_iter \<lparr> batch_sampler = \<lparr> batches = [[0, 1, 2, 3], [4, 5, 6, 7::int]],
                                   batch_size = 4, drop_last = True \<rparr>,
                num_processes = 2, process_index = 1, split_batches = True,
                self_batch_size = 4, self_drop_last = True \<rparr>
     = Some (Inr [[2, 3], [6, 7]])
   \<and> length [[0, 1], [4, 5::int]] + length [[2, 3], [6, 7::int]] = 4
   \<and> length (batches \<lparr> batches = [[0, 1, 2, 3], [4, 5, 6, 7::int]], batch_size = 4,
                        drop_last = True \<rparr>)
       - length (batches \<lparr> batches = [[0, 1, 2, 3], [4, 5, 6, 7::int]], batch_size = 4,
                            drop_last = True \<rparr>) mod 2 = 2"
  by (simp add: shard_iter_def iter_with_split_def split_step_def enumerate_eq_zip
      shard_slice_def py_slice_def)

text \<open>
  C5, amended: for a positive process count \<open>np\<close>, a positive batch size and a pass of
  length \<open>L\<close> whose batches are full except possibly the last (not empty, not longer), of
  which \<open>F\<close> are full, the pass of every process \<open>0 \<le> pi < np\<close> terminates, raises nothing
  and yields a number of batches that does not depend on \<open>pi\<close>, all of one size. Without
  \<open>split_batches\<close> the number is \<open>F div np\<close> when \<open>drop_last\<close> holds, so the processes yield
  \<open>np * (F div np) = F - F mod np\<close> batches together, and \<open>(L + np - 1) div np\<close>, the quotient
  rounded up, when it does not; every batch has \<open>batch_size\<close> elements. With
  \<open>split_batches\<close> the number is \<open>F\<close> when \<open>drop_last\<close> holds and \<open>L\<close> when it does not, and
  every batch has \<open>batch_size div np\<close> elements. In each case the processes yield \<open>np\<close>
  times that number together, a multiple of \<open>np\<close>.
\<close>

theorem workers_yield_equal_numbers:
  assumes init: "BatchSamplerShard_init b np pi split = Inr s"
    and pi: "0 \<le> pi" "pi < np"
    and bs: "0 < batch_size b"
    and uniform: "\<forall>y \<in> set (butlast (batches b)). int (length y) = batch_size b"
    and lastb: "batches b \<noteq> [] \<longrightarrow>
        last (batches b) \<noteq> [] \<and> int (length (last (batches b))) \<le> batch_size b"
  shows "(\<exists>ys. shard_iter s = Some (Inr ys)
           \<and> length ys =
               (if split
                then (if drop_last b
                      then length (filter (\<lambda>y. int (length y) = batch_size b) (batches b))
                      else length (batches b))
                else (if drop_last b
                      then length (filter (\<lambda>y. int (length y) = batch_size b) (batches b))
                             div nat np
                      else (length (batches b) + nat np - 1) div nat np))
           \<and> (\<forall>y \<in> set ys. int (length y)
                               = (if split then batch_size b div np else batch_size b)))
       \<and> nat np * (length (filter (\<lambda>y. int (length y) = batch_size b) (batches b)) div nat np)
           = length (filter (\<lambda>y. int (length y) = batch_size b) (batches b))
             - length (filter (\<lambda>y. int (length y) = batch_size b) (batches b)) mod nat np"
proof (intro conjI)
  show "nat np * (length (filter (\<lambda>y. int (length y) = batch_size b) (batches b)) div nat np)
      = length (filter (\<lambda>y. int (length y) = batch_size b) (batches b))
        - length (filter (\<lambda>y. int (length y) = batch_size b) (batches b)) mod nat np"
    by (simp add: minus_mod_eq_mult_div)
  show "\<exists>ys. shard_iter s = Some (Inr ys)
           \<and> length ys =
               (if split
                then (if drop_last b
                      then length (filter (\<lambda>y. int (length y) = batch_size b) (batches b))
                      else length (batches b))
                else (if drop_last b
                      then length (filter (\<lambda>y. int (length y) = batch_size b) (batches b))
                             div nat np
                      else (length (batches b) + nat np - 1) div nat np))
           \<and> (\<forall>y \<in> set ys. int (length y)
                               = (if split then batch_size b div np else batch_size b))"
  proof (cases split)
    case True
    with init have init': "BatchSamplerShard_init b np pi True = Inr s" by simp
    have iter: "shard_iter s = iter_with_split s"
      using init_split_fields(8) [OF init'] by (simp add: shard_iter_def)
    show ?thesis
      unfolding iter using split_uniform [OF init' pi bs uniform lastb] True by simp
  next
    case False
    with init have init': "BatchSamplerShard_init b np pi False = Inr s" by simp
    define n where "n = nat np"
    define p where "p = nat pi"
    have n: "0 < n" and p: "p < n" and np: "np = int n" and pi': "pi = int p"
      using pi by (simp_all add: n_def p_def)
    note f = init_no_split_fields [OF init']
    have s: "batch_sampler s = b" "num_processes s = int n" "process_index s = int p"
        "self_batch_size s = batch_size b" "self_drop_last s = drop_last b"
      using f np pi' by simp_all
    have iter: "shard_iter s = iter_with_no_split s" using f(6) by (simp add: shard_iter_def)
    show ?thesis
      unfolding iter n_def [symmetric]
      using no_split_uniform [OF s n p bs uniform lastb] False by simp
  qed
qed

theorem workers_yield_equal_numbers_witness:
  "(\<exists>ys. shard_iter \<lparr> batch_sampler = \<lparr> batches = [[0, 1, 2, 3], [4, 5, 6, 7], [8, 9::int]],
                                         batch_size = 4, drop_last = False \<rparr>,
                      num_processes = 2, process_index = 1, split_batches = False,
                      self_batch_size = 4, self_drop_last = False \<rparr> = Some (Inr ys)
          \<and> length ys = 2 \<and> list_all (\<lambda>y. length y = 4) ys)"
proof -
  let ?b = "\<lparr> batches = [[0, 1, 2, 3], [4, 5, 6, 7], [8, 9::int]], batch_size = 4,
              drop_last = False \<rparr>"
  let ?s = "\<lparr> batch_sampler = ?b, num_processes = 2, process_index = 1,
              split_batches = False, self_batch_size = 4, self_drop_last = False \<rparr>"
  have i: "BatchSamplerShard_init ?b 2 1 False = Inr ?s"
    by (simp add: BatchSamplerShard_init_def)
  have h: "(0::int) \<le> 1" "(1::int) < 2" "0 < batch_size ?b"
    "\<forall>y \<in> set (butlast (batches ?b)). int (length y) = batch_size ?b"
    "batches ?b \<noteq> [] \<longrightarrow>
        last (batches ?b) \<noteq> [] \<and> int (length (last (batches ?b))) \<le> batch_size ?b"
    by simp_all
  have n2: "nat 2 = Suc (Suc 0)" by simp
  from conjunct1 [OF workers_yield_equal_numbers [OF i h]]
  show ?thesis by (auto simp: n2 list_all_iff)
qed

text \<open>
  C7, as the code has it: \<^verbatim>\<open>__len__\<close> divides the length of the upstream pass by the
  process count whatever the mode, while with \<open>split_batches\<close> a pass yields one slice for
  each full upstream batch. On two processes the pass \<open>[[0,1,2,3],[4,5,6,7]]\<close> gives the
  reported length 1 and a pass of two batches.
\<close>

theorem split_len_differs_from_pass:
  "BatchSamplerShard_init
     \<lparr> batches = [[0, 1, 2, 3], [4, 5, 6, 7::int]], batch_size = 4, drop_last = False \<rparr>
     2 0 True
   = Inr \<lparr> batch_sampler = \<lparr> batches = [[0, 1, 2, 3], [4, 5, 6, 7::int]],
                              batch_size = 4, drop_last = False \<rparr>,
           num_processes = 2, process_index = 0, split_batches = True,
           self_batch_size = 4, self_drop_last = False \<rparr>
   \<and> shard_len \<lparr> batch_sampler = \<lparr> batches = [[0, 1, 2, 3], [4, 5, 6, 7::int]],
                                    batch_size = 4, drop_last = False \<rparr>,
                 num_processes = 2, process_index = 0, split_batches = True,
                 self_batch_size = 4, self_drop_last = False \<rparr> = Inr 1
   \<and> shard_iter \<lparr> batch_sampler = \<lparr> batches = [[0, 1, 2, 3], [4, 5, 6, 7::int]],
                                     batch_size = 4, drop_last = False \<rparr>,
                  num_processes = 2, process_index = 0, split_batches = True,
                  self_batch_size = 4, self_drop_last = False \<rparr>
       = Some (Inr [[0, 1], [4, 5]])"
  by (simp add: BatchSamplerShard_init_def shard_len_def len_BatchSampler_def
      shard_iter_def iter_with_split_def split_step_def enumerate_eq_zip
      shard_slice_def py_slice_def)

end
